theory Spec2Isabelle
  imports Main "HOL-Library.Word" "HOL-Library.Multiset" "HOL-Library.Product_Lexorder"
begin

section \<open>Data model\<close>

text \<open>
  The structures of \<^verbatim>\<open>src/rpc/claimtrie.cpp\<close>.  Only the members that the
  file reads are kept.  Identifiers are 160-bit and hashes 256-bit values; the output
  index of an outpoint is a \<^verbatim>\<open>uint32_t\<close>; heights are C \<^verbatim>\<open>int\<close>s and
  amounts are \<^verbatim>\<open>CAmount\<close> (a 64-bit signed integer).  Heights and amounts are
  modelled by \<^typ>\<open>int\<close>: consensus bounds them far below the machine limits, and signed
  overflow has no defined behaviour in the source language.
\<close>

type_synonym uint160 = "160 word"
type_synonym uint256 = "256 word"
type_synonym CAmount = int

record COutPoint =
  outPoint_hash :: uint256
  outPoint_n :: "32 word"

text \<open>
  \<^verbatim>\<open>CSupportValue\<close> and \<^verbatim>\<open>CClaimValue\<close> declare the same four members
  \<^verbatim>\<open>outPoint\<close>, \<^verbatim>\<open>nAmount\<close>, \<^verbatim>\<open>nHeight\<close>, \<^verbatim>\<open>nValidAtHeight\<close>;
  the claim adds \<^verbatim>\<open>claimId\<close>.  The record extension gives both the same selectors.
\<close>

record CSupportValue =
  outPoint :: COutPoint
  nAmount :: CAmount
  nHeight :: int
  nValidAtHeight :: int

record CClaimValue = CSupportValue +
  claimId :: uint160

record CClaimNsupports =
  claim :: CClaimValue
  effectiveAmount :: CAmount
  supports :: "CSupportValue list"

record CClaimSupportToName =
  name :: string
  nLastTakeoverHeight :: int
  claimsNsupports :: "CClaimNsupports list"
  unmatchedSupports :: "CSupportValue list"

record CClaimIndexElement =
  element_name :: string
  element_claim :: CClaimValue

section \<open>Ranking: sequence order and index lookup\<close>

text \<open>The comparator handed to \<^verbatim>\<open>std::sort\<close> in \<^verbatim>\<open>seqSort\<close>.\<close>

definition seqLess :: "CClaimNsupports \<Rightarrow> CClaimNsupports \<Rightarrow> bool" where
  "seqLess lhs rhs =
     (let lc = claim lhs; rc = claim rhs
      in nHeight lc < nHeight rc \<or>
         (nHeight lc = nHeight rc \<and> outPoint_n (outPoint lc) < outPoint_n (outPoint rc)))"

text \<open>
  \<^verbatim>\<open>std::sort\<close> returns a permutation of its input that is ordered by the comparator.
  It is not a stable sort: the order of elements that the comparator does not separate
  is the library's, and may depend on the whole vector.  That choice is a parameter of
  the model: \<open>ties source i\<close> is the rank that the library gives to the element at
  position \<open>i\<close> of the vector \<open>source\<close>, and elements that the comparator does not
  separate come out by ascending rank (in their input order where the rank does not
  separate them either).  Nothing is assumed of the ranks, and every ordered permutation
  of the input is the result for some ranks.
\<close>

type_synonym tie_order = "CClaimNsupports list \<Rightarrow> nat \<Rightarrow> nat"

definition tiedLess :: "CClaimNsupports \<times> nat \<Rightarrow> CClaimNsupports \<times> nat \<Rightarrow> bool" where
  "tiedLess a b = (seqLess (fst a) (fst b) \<or> (\<not> seqLess (fst b) (fst a) \<and> snd a < snd b))"

fun seqInsert ::
  "CClaimNsupports \<times> nat \<Rightarrow> (CClaimNsupports \<times> nat) list \<Rightarrow> (CClaimNsupports \<times> nat) list" where
  "seqInsert x [] = [x]"
| "seqInsert x (y # ys) = (if tiedLess y x then y # seqInsert x ys else x # y # ys)"

definition seqSort :: "tie_order \<Rightarrow> CClaimNsupports list \<Rightarrow> CClaimNsupports list" where
  "seqSort ties source =
     map fst (foldr seqInsert (zip source (map (ties source) [0..<length source])) [])"

text \<open>
  \<^verbatim>\<open>std::find_if\<close> followed by \<^verbatim>\<open>std::distance\<close>: the position of the first
  element that satisfies the predicate, the length of the list when there is none.
\<close>

fun find_if :: "('a \<Rightarrow> bool) \<Rightarrow> 'a list \<Rightarrow> nat" where
  "find_if P [] = 0"
| "find_if P (x # xs) = (if P x then 0 else Suc (find_if P xs))"

text \<open>
  \<^verbatim>\<open>indexOf\<close> asserts that the identifier was found; a failed assertion aborts the
  process and is the value \<open>None\<close>.
\<close>

definition indexOf :: "CClaimNsupports list \<Rightarrow> uint160 \<Rightarrow> nat option" where
  "indexOf source cid =
     (let it = find_if (\<lambda>claimNsupports. claimId (claim claimNsupports) = cid) source
      in if it \<noteq> length source then Some it else None)"

section \<open>Amounts\<close>

text \<open>The loop of \<^verbatim>\<open>amountToClaim\<close>, with the running total as accumulator.\<close>

fun addSupports :: "CAmount \<Rightarrow> CSupportValue list \<Rightarrow> CAmount" where
  "addSupports fullAmount [] = fullAmount"
| "addSupports fullAmount (support # rest) = addSupports (fullAmount + nAmount support) rest"

definition amountToClaim :: "CClaimNsupports \<Rightarrow> CAmount" where
  "amountToClaim claimNsupports =
     addSupports (nAmount (claim claimNsupports)) (supports claimNsupports)"

section \<open>Errors and results\<close>

text \<open>
  The keys of the result objects are the \<^verbatim>\<open>T_...\<close> macros of
  \<^verbatim>\<open>rpc/claimrpchelp.h\<close>, whose strings are not part of this file; they are kept
  symbolic, one constructor for each macro.
\<close>

datatype json_key =
  T_NAME | T_VALUE | T_ADDRESS | T_CLAIMID | T_TXID | T_N | T_HEIGHT | T_VALIDATHEIGHT
| T_AMOUNT | T_EFFECTIVEAMOUNT | T_PENDINGAMOUNT | T_SUPPORTS | T_NORMALIZEDNAME
| T_LASTTAKEOVERHEIGHT | T_BID | T_SEQUENCE | T_CLAIMS | T_SUPPORTSWITHOUTCLAIM
| T_NODES | T_PAIRS | T_CHILDREN | T_CHARACTER | T_NODEHASH | T_VALUEHASH | T_ODD | T_HASH

text \<open>
  One constructor for each \<^verbatim>\<open>throw JSONRPCError\<close> of the queries modelled here,
  named after its message; \<open>thread_interrupted\<close> is what
  \<^verbatim>\<open>boost::this_thread::interruption_point\<close> throws and \<open>assertion_failed\<close> is the
  abort of a failed \<^verbatim>\<open>assert\<close>.
\<close>

datatype rpc_error =
  must_be_a_hexadecimal_string
| must_be_max_20_character_hexadecimal_string
| should_be_at_least_3_chars
| should_not_be_a_negative_value json_key
| Block_not_found
| Block_not_in_main_chain
| Block_is_too_deep
| Failed_to_read
| Out_of_memory
| Shutdown_requested
| Failed_to_disconnect
| Failed_to_generate_proof
| thread_interrupted
| assertion_failed

text \<open>\<^verbatim>\<open>UniValue\<close>: objects, arrays, strings, numbers and booleans.\<close>

datatype UniValue =
  VOBJ "(json_key \<times> UniValue) list"
| VARR "UniValue list"
| VSTR string
| VNUM int
| VBOOL bool

text \<open>
  \<^verbatim>\<open>UniValue::pushKV\<close> replaces the value of a key that the object already has and
  appends the pair otherwise; \<^verbatim>\<open>pushKVs\<close> appends every pair of another object;
  both leave a value that is not an object as it is.
\<close>

fun putKV :: "json_key \<Rightarrow> UniValue \<Rightarrow> (json_key \<times> UniValue) list \<Rightarrow> (json_key \<times> UniValue) list" where
  "putKV k v [] = [(k, v)]"
| "putKV k v (kv # kvs) = (if fst kv = k then (k, v) # kvs else kv # putKV k v kvs)"

fun pushKV :: "UniValue \<Rightarrow> json_key \<Rightarrow> UniValue \<Rightarrow> UniValue" where
  "pushKV (VOBJ kvs) k v = VOBJ (putKV k v kvs)"
| "pushKV u k v = u"

fun pushKVs :: "UniValue \<Rightarrow> UniValue \<Rightarrow> UniValue" where
  "pushKVs (VOBJ kvs) (VOBJ kvs') = VOBJ (kvs @ kvs')"
| "pushKVs u u' = u"

fun push_back :: "UniValue \<Rightarrow> UniValue \<Rightarrow> UniValue" where
  "push_back (VARR vs) v = VARR (vs @ [v])"
| "push_back u v = u"

text \<open>The value stored under a key of an object, if the key is there.\<close>

fun find_value :: "UniValue \<Rightarrow> json_key \<Rightarrow> UniValue option" where
  "find_value (VOBJ kvs) k = map_of kvs k"
| "find_value u k = None"

section \<open>Hexadecimal text\<close>

definition hexChar :: "nat \<Rightarrow> char" where
  "hexChar d = ''0123456789abcdef'' ! (d mod 16)"

text \<open>
  Modelled from the spec: \<^verbatim>\<open>HexDigit\<close> is declared in
  \<^verbatim>\<open>utilstrencodings.h\<close>, not in this file.  The value of a hexadecimal character,
  \<open>-1\<close> for any other character.
\<close>

definition HexDigit :: "char \<Rightarrow> int" where
  "HexDigit c =
     (let k = (of_char c :: nat)
      in if 48 \<le> k \<and> k \<le> 57 then int k - 48
         else if 97 \<le> k \<and> k \<le> 102 then int k - 87
         else if 65 \<le> k \<and> k \<le> 70 then int k - 55
         else - 1)"

text \<open>
  Modelled from the spec: \<^verbatim>\<open>IsHexNumber\<close> is declared in
  \<^verbatim>\<open>utilstrencodings.h\<close>, not in this file.  The spec has identifier text
  ``validated as an even-length hex string'' and non-hex input rejected.
\<close>

definition IsHexNumber :: "string \<Rightarrow> bool" where
  "IsHexNumber str = (str \<noteq> [] \<and> list_all (\<lambda>c. 0 \<le> HexDigit c) str \<and> even (length str))"

text \<open>
  Modelled from the spec: \<^verbatim>\<open>GetHex\<close> and \<^verbatim>\<open>SetHex\<close> of
  \<^verbatim>\<open>uint160\<close> and \<^verbatim>\<open>uint256\<close> are declared in \<^verbatim>\<open>uint256.h\<close>, not in
  this file.  An identifier is a 160-bit value whose text has 40 hexadecimal characters,
  the most significant first; reading takes the leading hexadecimal characters as a
  base-16 numeral.
\<close>

definition GetHex :: "'a::len word \<Rightarrow> string" where
  "GetHex w = map (\<lambda>i. hexChar (unat w div 16 ^ i)) (rev [0..<LENGTH('a) div 4])"

definition natOfHex :: "string \<Rightarrow> nat" where
  "natOfHex str = foldl (\<lambda>v c. 16 * v + nat (HexDigit c)) 0 (takeWhile (\<lambda>c. 0 \<le> HexDigit c) str)"

definition uint160S :: "string \<Rightarrow> uint160" where
  "uint160S str = word_of_nat (natOfHex str)"

text \<open>\<^verbatim>\<open>s.find(p) == 0\<close>: the string \<open>p\<close> occurs in \<open>s\<close> at position 0.\<close>

definition find_at_0 :: "string \<Rightarrow> string \<Rightarrow> bool" where
  "find_at_0 s p = (take (length p) s = p)"

text \<open>
  \<^verbatim>\<open>ParseClaimtrieId\<close>: the parameter must be a string that \<^verbatim>\<open>IsHexNumber\<close>
  accepts, of at most \<^verbatim>\<open>claimIdHexLength\<close> characters.
\<close>

definition claimIdHexLength :: nat where
  "claimIdHexLength = 40"

definition ParseClaimtrieId :: "UniValue \<Rightarrow> rpc_error + string" where
  "ParseClaimtrieId v =
     (case v of
        VSTR str \<Rightarrow>
          (if \<not> IsHexNumber str then Inl must_be_a_hexadecimal_string
           else if length str > claimIdHexLength then Inl must_be_max_20_character_hexadecimal_string
           else Inr str)
      | _ \<Rightarrow> Inl must_be_a_hexadecimal_string)"

section \<open>The identifier index\<close>

text \<open>
  The database behind \<^verbatim>\<open>pclaimTrie->db\<close> is the list of its entries in the order
  of the cursor.  For each entry, \<open>entry_key\<close> is what \<^verbatim>\<open>GetKey\<close> decodes:
  a \<^verbatim>\<open>CLAIM_BY_ID\<close> key with its identifier, or anything else (another prefix, or a
  key that does not decode); \<open>entry_value\<close> is what \<^verbatim>\<open>GetValue\<close> decodes into a
  \<^verbatim>\<open>CClaimIndexElement\<close>, \<open>None\<close> when it does not decode.
\<close>

datatype db_key = CLAIM_BY_ID uint160 | OTHER_KEY

record db_entry =
  entry_key :: db_key
  entry_value :: "CClaimIndexElement option"

text \<open>Every access to the index is logged: a point read, or a visit of the cursor.\<close>

datatype db_access = Read_key uint160 | Cursor_at nat

definition db_Read :: "db_entry list \<Rightarrow> uint160 \<Rightarrow> CClaimIndexElement option" where
  "db_Read db cid =
     (case List.find (\<lambda>e. entry_key e = CLAIM_BY_ID cid) db of
        None \<Rightarrow> None
      | Some e \<Rightarrow> entry_value e)"

text \<open>
  \<^verbatim>\<open>getClaimById(const uint160&, ...)\<close>: the name and the claim found, with the log
  of the accesses.
\<close>

definition getClaimById :: "db_entry list \<Rightarrow> uint160 \<Rightarrow> (string \<times> CClaimValue) option \<times> db_access list" where
  "getClaimById db cid =
     (if cid = 0 then (None, [])
      else (case db_Read db cid of
              None \<Rightarrow> (None, [Read_key cid])
            | Some element \<Rightarrow>
                (if claimId (element_claim element) = cid
                 then (Some (element_name element, element_claim element), [Read_key cid])
                 else (None, [Read_key cid]))))"

text \<open>
  \<^verbatim>\<open>getClaimById(const std::string& partialId, std::string& name, ...)\<close>.
  \<open>visitEntry\<close> is the body of the loop at one entry: \<open>None\<close> where the source
  says \<^verbatim>\<open>continue\<close> (or falls out of the last \<^verbatim>\<open>if\<close>), the name and claim where
  it returns true.  \<open>scanClaimById\<close> is the loop, \<open>i\<close> the position of the cursor and
  \<open>nm\<close> the name passed in.
\<close>

definition visitEntry :: "string \<Rightarrow> string \<Rightarrow> db_entry \<Rightarrow> (string \<times> CClaimValue) option" where
  "visitEntry partialId nm e =
     (case entry_key e of
        OTHER_KEY \<Rightarrow> None
      | CLAIM_BY_ID cid \<Rightarrow>
          (if \<not> find_at_0 (GetHex cid) partialId then None
           else (case entry_value e of
                   None \<Rightarrow> None
                 | Some element \<Rightarrow>
                     (if nm \<noteq> [] \<and> nm \<noteq> element_name element then None
                      else Some (element_name element, element_claim element)))))"

fun scanClaimById :: "string \<Rightarrow> string \<Rightarrow> nat \<Rightarrow> db_entry list \<Rightarrow> (string \<times> CClaimValue) option \<times> db_access list" where
  "scanClaimById partialId nm i [] = (None, [])"
| "scanClaimById partialId nm i (e # es) =
     (case visitEntry partialId nm e of
        Some found \<Rightarrow> (Some found, [Cursor_at i])
      | None \<Rightarrow> (fst (scanClaimById partialId nm (Suc i) es),
                  Cursor_at i # snd (scanClaimById partialId nm (Suc i) es)))"

definition getClaimById_partial :: "db_entry list \<Rightarrow> string \<Rightarrow> string \<Rightarrow> (string \<times> CClaimValue) option \<times> db_access list" where
  "getClaimById_partial db partialId nm =
     (if partialId = [] then (None, []) else scanClaimById partialId nm 0 db)"

section \<open>Rendering claims and supports\<close>

text \<open>
  What the queries call outside this file is taken as given: the conversion
  \<^verbatim>\<open>boost::locale::conv::to_utf\<close> (\<open>None\<close> when it throws
  \<^verbatim>\<open>conversion_error\<close>), \<^verbatim>\<open>DecodeClaimScript\<close>,
  \<^verbatim>\<open>ExtractDestination\<close> followed by \<^verbatim>\<open>EncodeDestination\<close>, and the
  order in which \<^verbatim>\<open>std::sort\<close> leaves tied elements; the identifier index
  \<^verbatim>\<open>pclaimTrie->db\<close> is part of the same environment.
\<close>

type_synonym CScript = "8 word list"

datatype claim_op = OP_CLAIM_NAME | OP_UPDATE_CLAIM | OP_SUPPORT_CLAIM

record Coin =
  IsSpent :: bool
  out_scriptPubKey :: CScript

record CCoinsViewCache =
  AccessCoin :: "COutPoint \<Rightarrow> Coin"
  DynamicMemoryUsage :: nat

record externals =
  to_utf :: "string \<Rightarrow> string option"
  DecodeClaimScript :: "CScript \<Rightarrow> (claim_op \<times> 8 word list list) option"
  EncodedDestination :: "CScript \<Rightarrow> string option"
  pclaimTrie_db :: "db_entry list"
  sort_ties :: tie_order

definition escapeChar :: "char \<Rightarrow> string" where
  "escapeChar c =
     (let ch = (of_char c :: nat)
      in if ch < 0x08 \<or> (ch \<ge> 0x0e \<and> ch \<le> 0x1f) \<or> ch \<ge> 0x7f
         then [CHR 0x5C, CHR ''u'', CHR ''0'', CHR ''0'', hexChar (ch div 16), hexChar ch]
         else if ch = 0x08 then [CHR 0x5C, CHR ''b'']
         else if ch = 0x09 then [CHR 0x5C, CHR ''t'']
         else if ch = 0x0a then [CHR 0x5C, CHR ''n'']
         else if ch = 0x0c then [CHR 0x5C, CHR ''f'']
         else if ch = 0x0d then [CHR 0x5C, CHR ''r'']
         else if ch = 0x22 then [CHR 0x5C, CHR 0x22]
         else if ch = 0x5c then [CHR 0x5C, CHR 0x5C]
         else [c])"

definition escapeNonUtf8 :: "externals \<Rightarrow> string \<Rightarrow> string" where
  "escapeNonUtf8 X nm =
     (case to_utf X nm of
        Some converted \<Rightarrow> converted
      | None \<Rightarrow> concat (map escapeChar nm))"

definition HexStr :: "8 word list \<Rightarrow> string" where
  "HexStr bytes = concat (map (\<lambda>b. [hexChar (unat b div 16), hexChar (unat b)]) bytes)"

text \<open>
  \<^verbatim>\<open>extractValue\<close> reads \<^verbatim>\<open>vvchParams[1]\<close> of a decoded claim without a test
  of the size: \<^verbatim>\<open>DecodeClaimScript\<close> yields name and value for
  \<^verbatim>\<open>OP_CLAIM_NAME\<close>.
\<close>

definition extractValue :: "externals \<Rightarrow> CScript \<Rightarrow> string option" where
  "extractValue X scriptPubKey =
     (case DecodeClaimScript X scriptPubKey of
        None \<Rightarrow> None
      | Some (op, vvchParams) \<Rightarrow>
          (if op = OP_CLAIM_NAME then Some (HexStr (vvchParams ! 1))
           else if length vvchParams > 2 then Some (HexStr (vvchParams ! 2))
           else None))"

text \<open>
  The block that \<^verbatim>\<open>claimToJSON\<close> and \<^verbatim>\<open>supportToJSON\<close> both run on the
  coin of the outpoint: value and address, when the coin is unspent.
\<close>

definition pushCoin :: "externals \<Rightarrow> Coin \<Rightarrow> UniValue \<Rightarrow> UniValue" where
  "pushCoin X coin result =
     (if \<not> IsSpent coin
      then (let r1 = (case extractValue X (out_scriptPubKey coin) of
                        Some v \<Rightarrow> pushKV result T_VALUE (VSTR v)
                      | None \<Rightarrow> result)
            in (case EncodedDestination X (out_scriptPubKey coin) of
                  Some address \<Rightarrow> pushKV r1 T_ADDRESS (VSTR address)
                | None \<Rightarrow> r1))
      else result)"

definition claimToJSON :: "externals \<Rightarrow> CCoinsViewCache \<Rightarrow> CClaimValue \<Rightarrow> UniValue" where
  "claimToJSON X coinsCache cl =
     (let r0 = (case fst (getClaimById (pclaimTrie_db X) (claimId cl)) of
                  Some found \<Rightarrow> pushKV (VOBJ []) T_NAME (VSTR (escapeNonUtf8 X (fst found)))
                | None \<Rightarrow> VOBJ []);
          r1 = pushCoin X (AccessCoin coinsCache (outPoint cl)) r0;
          r2 = pushKV r1 T_CLAIMID (VSTR (GetHex (claimId cl)));
          r3 = pushKV r2 T_TXID (VSTR (GetHex (outPoint_hash (outPoint cl))));
          r4 = pushKV r3 T_N (VNUM (sint (outPoint_n (outPoint cl))));
          r5 = pushKV r4 T_HEIGHT (VNUM (nHeight cl));
          r6 = pushKV r5 T_VALIDATHEIGHT (VNUM (nValidAtHeight cl))
      in pushKV r6 T_AMOUNT (VNUM (nAmount cl)))"

definition supportToJSON :: "externals \<Rightarrow> CCoinsViewCache \<Rightarrow> CSupportValue \<Rightarrow> UniValue" where
  "supportToJSON X coinsCache support =
     (let r1 = pushCoin X (AccessCoin coinsCache (outPoint support)) (VOBJ []);
          r2 = pushKV r1 T_TXID (VSTR (GetHex (outPoint_hash (outPoint support))));
          r3 = pushKV r2 T_N (VNUM (sint (outPoint_n (outPoint support))));
          r4 = pushKV r3 T_HEIGHT (VNUM (nHeight support));
          r5 = pushKV r4 T_VALIDATHEIGHT (VNUM (nValidAtHeight support))
      in pushKV r5 T_AMOUNT (VNUM (nAmount support)))"

definition claimAndSupportsToJSON :: "externals \<Rightarrow> CCoinsViewCache \<Rightarrow> CClaimNsupports \<Rightarrow> UniValue" where
  "claimAndSupportsToJSON X coinsCache claimNsupports =
     (let r0 = claimToJSON X coinsCache (claim claimNsupports);
          r1 = pushKV r0 T_EFFECTIVEAMOUNT (VNUM (effectiveAmount claimNsupports));
          fullAmount = amountToClaim claimNsupports;
          r2 = (if fullAmount > effectiveAmount claimNsupports
                then pushKV r1 T_PENDINGAMOUNT (VNUM fullAmount)
                else r1);
          supportObjs = foldl (\<lambda>arr support. push_back arr (supportToJSON X coinsCache support))
                          (VARR []) (supports claimNsupports)
      in pushKV r2 T_SUPPORTS supportObjs)"

section \<open>Rewinding to a historical block\<close>

text \<open>
  A block index holds its hash, its height and the pointer to its predecessor; the
  pointers of one chain never form a cycle, so the index and what it points to are a
  value of a datatype, and two pointers are equal when these values are.
\<close>

datatype CBlockIndex =
  CBlockIndex (phashBlock: uint256) (block_nHeight: int) (pprev: "CBlockIndex option")

datatype DisconnectResult = DISCONNECT_OK | DISCONNECT_UNCLEAN | DISCONNECT_FAILED

text \<open>
  The trie cache answers the two queries this file puts to it; the predicate of
  \<^verbatim>\<open>getProofForName\<close> is an empty \<^verbatim>\<open>std::function\<close> (\<open>None\<close>) or a
  comparison of claims.
\<close>

record CClaimTrieProofNode =
  children :: "(8 word \<times> uint256) list"
  node_hasValue :: bool
  valHash :: uint256

record CClaimTrieProof =
  nodes :: "CClaimTrieProofNode list"
  pairs :: "(bool \<times> uint256) list"
  hasValue :: bool
  proof_outPoint :: COutPoint
  nHeightOfLastTakeover :: int

record CClaimTrieCache =
  getClaimsForName :: "string \<Rightarrow> CClaimSupportToName"
  getProofForName :: "string \<Rightarrow> (CClaimValue \<Rightarrow> bool) option \<Rightarrow> CClaimTrieProof option"

record caches =
  coinsCache :: CCoinsViewCache
  trieCache :: CClaimTrieCache

text \<open>
  The node around \<^verbatim>\<open>BlockHashIndex\<close> and \<^verbatim>\<open>RollBackTo\<close>: the block index
  map, the active chain and its tip, the memory figures,
  the block store, the disconnect step of the chain state, and the two signals.  The
  interruption point and \<^verbatim>\<open>ShutdownRequested\<close> are polled once in each pass of the
  loop; their answers are given by the number of the pass.
\<close>

record 'blk node =
  mapBlockIndex :: "uint256 \<Rightarrow> CBlockIndex option"
  chainActive_Contains :: "CBlockIndex \<Rightarrow> bool"
  chainActive_Tip :: CBlockIndex
  pcoinsTip_DynamicMemoryUsage :: nat
  nCoinCacheUsage :: nat
  interruption_requested :: "nat \<Rightarrow> bool"
  ShutdownRequested :: "nat \<Rightarrow> bool"
  ReadBlockFromDisk :: "CBlockIndex \<Rightarrow> 'blk option"
  DisconnectBlock :: "'blk \<Rightarrow> CBlockIndex \<Rightarrow> caches \<Rightarrow> DisconnectResult \<times> caches"
  getMerkleHash :: "CClaimTrieCache \<Rightarrow> CClaimTrieCache"

datatype rollback_event = Read_block CBlockIndex | Disconnect_block CBlockIndex

definition MAX_RPC_BLOCK_DECREMENTS :: int where
  "MAX_RPC_BLOCK_DECREMENTS = 500"

text \<open>
  The loop of \<^verbatim>\<open>RollBackTo\<close>: \<open>k\<close> counts the passes, \<open>log\<close> collects the block
  reads and the disconnect steps made so far.
\<close>

fun rollBackLoop ::
  "'blk node \<Rightarrow> CBlockIndex \<Rightarrow> nat \<Rightarrow> CBlockIndex option \<Rightarrow> caches \<Rightarrow> rollback_event list
     \<Rightarrow> (rpc_error + caches) \<times> rollback_event list" where
  "rollBackLoop N targetIndex k None cs log = (Inr cs, log)"
| "rollBackLoop N targetIndex k (Some (CBlockIndex h ht prev)) cs log =
     (let activeIndex = CBlockIndex h ht prev
      in if activeIndex = targetIndex then (Inr cs, log)
         else if interruption_requested N k then (Inl thread_interrupted, log)
         else (case ReadBlockFromDisk N activeIndex of
                 None \<Rightarrow> (Inl Failed_to_read, log @ [Read_block activeIndex])
               | Some block \<Rightarrow>
                   (if DynamicMemoryUsage (coinsCache cs) + pcoinsTip_DynamicMemoryUsage N
                         > nCoinCacheUsage N
                    then (Inl Out_of_memory, log @ [Read_block activeIndex])
                    else if ShutdownRequested N k
                    then (Inl Shutdown_requested, log @ [Read_block activeIndex])
                    else if fst (DisconnectBlock N block activeIndex cs) \<noteq> DISCONNECT_OK
                    then (Inl Failed_to_disconnect,
                          log @ [Read_block activeIndex, Disconnect_block activeIndex])
                    else rollBackLoop N targetIndex (Suc k) prev
                           (snd (DisconnectBlock N block activeIndex cs))
                           (log @ [Read_block activeIndex, Disconnect_block activeIndex]))))"

definition RollBackTo ::
  "'blk node \<Rightarrow> CBlockIndex \<Rightarrow> caches \<Rightarrow> (rpc_error + caches) \<times> rollback_event list" where
  "RollBackTo N targetIndex cs =
     (if block_nHeight (chainActive_Tip N) > block_nHeight targetIndex + MAX_RPC_BLOCK_DECREMENTS
      then (Inl Block_is_too_deep, [])
      else (case rollBackLoop N targetIndex 0 (Some (chainActive_Tip N)) cs [] of
              (Inl e, log) \<Rightarrow> (Inl e, log)
            | (Inr cs', log) \<Rightarrow> (Inr (cs'\<lparr>trieCache := getMerkleHash N (trieCache cs')\<rparr>), log)))"

definition BlockHashIndex :: "'blk node \<Rightarrow> uint256 \<Rightarrow> rpc_error + CBlockIndex" where
  "BlockHashIndex N blockHash =
     (case mapBlockIndex N blockHash of
        None \<Rightarrow> Inl Block_not_found
      | Some pblockIndex \<Rightarrow>
          (if \<not> chainActive_Contains N pblockIndex then Inl Block_not_in_main_chain
           else Inr pblockIndex))"

section \<open>The queries\<close>

text \<open>
  A query is modelled from the point where \<^verbatim>\<open>validateRequest\<close> has accepted the
  request and \<^verbatim>\<open>get_str\<close>, \<^verbatim>\<open>get_int\<close> and \<^verbatim>\<open>ParseHashV\<close> have read its
  parameters: an optional parameter is an \<open>option\<close>.  The caches \<open>cs0\<close> are the ones
  the query builds over the tip.

  \<open>historicalView\<close> is the block that the queries share: with a block hash, the caches
  are rolled back to that block.
\<close>

definition historicalView :: "'blk node \<Rightarrow> uint256 option \<Rightarrow> caches \<Rightarrow> rpc_error + caches" where
  "historicalView N p_blockhash cs0 =
     (case p_blockhash of
        None \<Rightarrow> Inr cs0
      | Some blockHash \<Rightarrow>
          (case BlockHashIndex N blockHash of
             Inl e \<Rightarrow> Inl e
           | Inr blockIndex \<Rightarrow> fst (RollBackTo N blockIndex cs0)))"

text \<open>
  Modelled from the spec: \<^verbatim>\<open>CClaimSupportToName::find(const uint160&)\<close> is
  declared in \<^verbatim>\<open>claimtrie.h\<close>, not in this file.  The entry of the list with that
  identifier (the spec's identifier-equality predicate), or the null entry (\<open>None\<close>)
  when the list has no such entry.
\<close>

definition find_claim :: "CClaimSupportToName \<Rightarrow> uint160 \<Rightarrow> CClaimNsupports option" where
  "find_claim csToName cid =
     List.find (\<lambda>claimNsupports. claimId (claim claimNsupports) = cid) (claimsNsupports csToName)"

text \<open>
  Modelled from the spec: \<^verbatim>\<open>CClaimNsupports::IsNull\<close> is declared in
  \<^verbatim>\<open>claimtrie.h\<close>, not in this file.  The null entry that \<^verbatim>\<open>find\<close> returns
  when it finds none is the default entry, whose claim has the null identifier, and an
  entry of the list is null as well when the identifier of its claim is null.
\<close>

definition IsNull :: "CClaimNsupports \<Rightarrow> bool" where
  "IsNull claimNsupports = (claimId (claim claimNsupports) = 0)"

text \<open>
  The entries that \<^verbatim>\<open>getvalueforname\<close>, \<^verbatim>\<open>getclaimbybid\<close>,
  \<^verbatim>\<open>getclaimbyseq\<close> and \<^verbatim>\<open>getclaimbyid\<close> write for the claim they
  selected.
\<close>

definition rankedToJSON ::
  "externals \<Rightarrow> CCoinsViewCache \<Rightarrow> CClaimSupportToName \<Rightarrow> CClaimNsupports \<Rightarrow> int \<Rightarrow> int \<Rightarrow> UniValue" where
  "rankedToJSON X coins csToName claimNsupports bid seq =
     (let r1 = pushKV (VOBJ []) T_NORMALIZEDNAME (VSTR (escapeNonUtf8 X (name csToName)));
          r2 = pushKVs r1 (claimAndSupportsToJSON X coins claimNsupports);
          r3 = pushKV r2 T_LASTTAKEOVERHEIGHT (VNUM (nLastTakeoverHeight csToName));
          r4 = pushKV r3 T_BID (VNUM bid)
      in pushKV r4 T_SEQUENCE (VNUM seq))"

text \<open>The loop of \<^verbatim>\<open>getclaimsforname\<close> over the positions of the claim list.\<close>

fun claimObjsLoop ::
  "externals \<Rightarrow> CCoinsViewCache \<Rightarrow> CClaimNsupports list \<Rightarrow> nat \<Rightarrow> CClaimNsupports list \<Rightarrow> UniValue
     \<Rightarrow> rpc_error + UniValue" where
  "claimObjsLoop X coins seqOrder i [] claimObjs = Inr claimObjs"
| "claimObjsLoop X coins seqOrder i (claimNsupports # rest) claimObjs =
     (case indexOf seqOrder (claimId (claim claimNsupports)) of
        None \<Rightarrow> Inl assertion_failed
      | Some seq \<Rightarrow>
          claimObjsLoop X coins seqOrder (Suc i) rest
            (push_back claimObjs
               (pushKV (pushKV (claimAndSupportsToJSON X coins claimNsupports) T_BID (VNUM (int i)))
                  T_SEQUENCE (VNUM (int seq)))))"

definition getclaimsforname ::
  "externals \<Rightarrow> 'blk node \<Rightarrow> caches \<Rightarrow> string \<Rightarrow> uint256 option \<Rightarrow> rpc_error + UniValue" where
  "getclaimsforname X N cs0 nm p_blockhash =
     (case historicalView N p_blockhash cs0 of
        Inl e \<Rightarrow> Inl e
      | Inr cs \<Rightarrow>
          (let csToName = getClaimsForName (trieCache cs) nm;
               r1 = pushKV (VOBJ []) T_NORMALIZEDNAME (VSTR (escapeNonUtf8 X (name csToName)));
               seqOrder = seqSort (sort_ties X) (claimsNsupports csToName)
           in (case claimObjsLoop X (coinsCache cs) seqOrder 0 (claimsNsupports csToName) (VARR []) of
                 Inl e \<Rightarrow> Inl e
               | Inr claimObjs \<Rightarrow>
                   (let unmatched = foldl (\<lambda>arr support. push_back arr (supportToJSON X (coinsCache cs) support))
                                      (VARR []) (unmatchedSupports csToName);
                        r2 = pushKV r1 T_CLAIMS claimObjs;
                        r3 = pushKV r2 T_LASTTAKEOVERHEIGHT (VNUM (nLastTakeoverHeight csToName))
                    in Inr (pushKV r3 T_SUPPORTSWITHOUTCLAIM unmatched)))))"

text \<open>
  \<^verbatim>\<open>uint32_t(bid) >= csToName.claimsNsupports.size()\<close>: the conversion reduces the
  \<^verbatim>\<open>int\<close> modulo \<open>2 ^ 32\<close>.
\<close>

definition beyond_size :: "int \<Rightarrow> 'a list \<Rightarrow> bool" where
  "beyond_size i xs = (nat (i mod 2 ^ 32) \<ge> length xs)"

definition getclaimbybid ::
  "externals \<Rightarrow> 'blk node \<Rightarrow> caches \<Rightarrow> string \<Rightarrow> int option \<Rightarrow> uint256 option \<Rightarrow> rpc_error + UniValue" where
  "getclaimbybid X N cs0 nm p_bid p_blockhash =
     (let bid = (case p_bid of None \<Rightarrow> 0 | Some b \<Rightarrow> b)
      in if bid < 0 then Inl (should_not_be_a_negative_value T_BID)
         else (case historicalView N p_blockhash cs0 of
                 Inl e \<Rightarrow> Inl e
               | Inr cs \<Rightarrow>
                   (let csToName = getClaimsForName (trieCache cs) nm
                    in if beyond_size bid (claimsNsupports csToName) then Inr (VOBJ [])
                       else (let claimNsupports = claimsNsupports csToName ! nat bid
                             in (case (if length (claimsNsupports csToName) > 1
                                       then indexOf (seqSort (sort_ties X) (claimsNsupports csToName))
                                              (claimId (claim claimNsupports))
                                       else Some 0) of
                                   None \<Rightarrow> Inl assertion_failed
                                 | Some seq \<Rightarrow>
                                     Inr (rankedToJSON X (coinsCache cs) csToName claimNsupports
                                            bid (int seq)))))))"

definition getclaimbyseq ::
  "externals \<Rightarrow> 'blk node \<Rightarrow> caches \<Rightarrow> string \<Rightarrow> int option \<Rightarrow> uint256 option \<Rightarrow> rpc_error + UniValue" where
  "getclaimbyseq X N cs0 nm p_seq p_blockhash =
     (let seq = (case p_seq of None \<Rightarrow> 0 | Some q \<Rightarrow> q)
      in if seq < 0 then Inl (should_not_be_a_negative_value T_SEQUENCE)
         else (case historicalView N p_blockhash cs0 of
                 Inl e \<Rightarrow> Inl e
               | Inr cs \<Rightarrow>
                   (let csToName = getClaimsForName (trieCache cs) nm
                    in if beyond_size seq (claimsNsupports csToName) then Inr (VOBJ [])
                       else if length (claimsNsupports csToName) = 1
                       then Inr (rankedToJSON X (coinsCache cs) csToName
                                   (claimsNsupports csToName ! 0) 0 seq)
                       else (let claimNsupports = seqSort (sort_ties X) (claimsNsupports csToName) ! nat seq
                             in (case indexOf (claimsNsupports csToName)
                                        (claimId (claim claimNsupports)) of
                                   None \<Rightarrow> Inl assertion_failed
                                 | Some bid \<Rightarrow>
                                     Inr (rankedToJSON X (coinsCache cs) csToName claimNsupports
                                            (int bid) seq))))))"

text \<open>
  The lookup of \<^verbatim>\<open>getclaimbyid\<close>:
  \<^verbatim>\<open>found = claimId.length() == claimIdHexLength && getClaimById(uint160S(claimId), name, &claim)\<close>
  and then \<^verbatim>\<open>found || getClaimById(claimId, name, &claim)\<close>, with the accesses to
  the index that it makes.
\<close>

definition resolveClaimId :: "db_entry list \<Rightarrow> string \<Rightarrow> (string \<times> CClaimValue) option \<times> db_access list" where
  "resolveClaimId db cidText =
     (let exact = (if length cidText = claimIdHexLength then getClaimById db (uint160S cidText)
                   else (None, []))
      in (case fst exact of
            Some found \<Rightarrow> (Some found, snd exact)
          | None \<Rightarrow> (fst (getClaimById_partial db cidText []),
                      snd exact @ snd (getClaimById_partial db cidText []))))"

text \<open>
  \<^verbatim>\<open>getclaimbyid\<close>, with the log of every access to the identifier index: those of
  the lookup, then the read that \<^verbatim>\<open>claimToJSON\<close> makes for the name.
\<close>

definition getclaimbyid ::
  "externals \<Rightarrow> caches \<Rightarrow> UniValue \<Rightarrow> (rpc_error + UniValue) \<times> db_access list" where
  "getclaimbyid X cs p_claimid =
     (case ParseClaimtrieId p_claimid of
        Inl e \<Rightarrow> (Inl e, [])
      | Inr cidText \<Rightarrow>
          (if length cidText < 3 then (Inl should_be_at_least_3_chars, [])
           else (case resolveClaimId (pclaimTrie_db X) cidText of
                   (None, log) \<Rightarrow> (Inr (VOBJ []), log)
                 | (Some (nm, cl), log) \<Rightarrow>
                     (let csToName = getClaimsForName (trieCache cs) nm
                      in (case find_claim csToName (claimId cl) of
                            None \<Rightarrow> (Inr (VOBJ []), log)
                          | Some claimNsupports \<Rightarrow>
                              if IsNull claimNsupports then (Inr (VOBJ []), log)
                              else
                              (case (if length (claimsNsupports csToName) > 1
                                     then (case indexOf (seqSort (sort_ties X) (claimsNsupports csToName))
                                                  (claimId cl) of
                                             None \<Rightarrow> None
                                           | Some seq \<Rightarrow>
                                               (case indexOf (claimsNsupports csToName) (claimId cl) of
                                                  None \<Rightarrow> None
                                                | Some bid \<Rightarrow> Some (seq, bid)))
                                     else Some (0, 0)) of
                                 None \<Rightarrow> (Inl assertion_failed, log)
                               | Some (seq, bid) \<Rightarrow>
                                   (Inr (rankedToJSON X (coinsCache cs) csToName claimNsupports
                                           (int bid) (int seq)),
                                    log @ snd (getClaimById (pclaimTrie_db X)
                                                 (claimId (claim claimNsupports))))))))))"

text \<open>
  Modelled from the spec: \<^verbatim>\<open>CClaimSupportToName::find(const std::string&)\<close> is
  declared in \<^verbatim>\<open>claimtrie.h\<close>, not in this file.  The first entry of the list whose
  identifier text starts with the partial identifier (the spec's identifier-prefix
  predicate, which \<^verbatim>\<open>getnameproof\<close> writes as
  \<^verbatim>\<open>claim.claimId.GetHex().find(claimId) == 0\<close>), or a null entry (\<open>None\<close>).
\<close>

definition find_claim_partial :: "CClaimSupportToName \<Rightarrow> string \<Rightarrow> CClaimNsupports option" where
  "find_claim_partial csToName partialId =
     List.find (\<lambda>claimNsupports. find_at_0 (GetHex (claimId (claim claimNsupports))) partialId)
       (claimsNsupports csToName)"

text \<open>
  \<^verbatim>\<open>getvalueforname\<close>: the rewind comes before the identifier is parsed; the claim
  is the one with the identifier, the first one with the partial identifier, or the
  first of the list when no identifier is given.  The identifier is the third parameter
  of the request and the block hash the second, so that a request with an identifier has
  a block hash as well.
\<close>

definition getvalueforname ::
  "externals \<Rightarrow> 'blk node \<Rightarrow> caches \<Rightarrow> string \<Rightarrow> uint256 option \<Rightarrow> UniValue option \<Rightarrow> rpc_error + UniValue" where
  "getvalueforname X N cs0 nm p_blockhash p_claimid =
     (case historicalView N p_blockhash cs0 of
        Inl e \<Rightarrow> Inl e
      | Inr cs \<Rightarrow>
          (case (case p_claimid of None \<Rightarrow> Inr [] | Some v \<Rightarrow> ParseClaimtrieId v) of
             Inl e \<Rightarrow> Inl e
           | Inr cidText \<Rightarrow>
               (let csToName = getClaimsForName (trieCache cs) nm
                in if claimsNsupports csToName = [] then Inr (VOBJ [])
                   else (case (if length cidText = claimIdHexLength
                               then find_claim csToName (uint160S cidText)
                               else if cidText \<noteq> [] then find_claim_partial csToName cidText
                               else Some (claimsNsupports csToName ! 0)) of
                           None \<Rightarrow> Inr (VOBJ [])
                         | Some claimNsupports \<Rightarrow>
                             if IsNull claimNsupports then Inr (VOBJ [])
                             else
                             (case (if length (claimsNsupports csToName) > 1
                                    then (case indexOf (seqSort (sort_ties X) (claimsNsupports csToName))
                                                 (claimId (claim claimNsupports)) of
                                            None \<Rightarrow> None
                                          | Some seq \<Rightarrow>
                                              (case indexOf (claimsNsupports csToName)
                                                      (claimId (claim claimNsupports)) of
                                                 None \<Rightarrow> None
                                               | Some bid \<Rightarrow> Some (seq, bid)))
                                    else Some (0, 0)) of
                                None \<Rightarrow> Inl assertion_failed
                              | Some (seq, bid) \<Rightarrow>
                                  Inr (rankedToJSON X (coinsCache cs) csToName claimNsupports
                                         (int bid) (int seq)))))))"

section \<open>Proof selection\<close>

definition childToJSON :: "8 word \<times> uint256 \<Rightarrow> UniValue" where
  "childToJSON itChildren =
     (let child = pushKV (VOBJ []) T_CHARACTER (VNUM (uint (fst itChildren)))
      in if snd itChildren \<noteq> 0 then pushKV child T_NODEHASH (VSTR (GetHex (snd itChildren)))
         else child)"

definition nodeToJSON :: "CClaimTrieProofNode \<Rightarrow> UniValue" where
  "nodeToJSON itNode =
     (let childrenArr = foldl (\<lambda>arr c. push_back arr (childToJSON c)) (VARR []) (children itNode);
          node = pushKV (VOBJ []) T_CHILDREN childrenArr
      in if node_hasValue itNode \<and> valHash itNode \<noteq> 0
         then pushKV node T_VALUEHASH (VSTR (GetHex (valHash itNode)))
         else node)"

definition pairToJSON :: "bool \<times> uint256 \<Rightarrow> UniValue" where
  "pairToJSON itPair =
     pushKV (pushKV (VOBJ []) T_ODD (VBOOL (fst itPair))) T_HASH (VSTR (GetHex (snd itPair)))"

definition proofToJSON :: "CClaimTrieProof \<Rightarrow> UniValue" where
  "proofToJSON prf =
     (let nodesArr = foldl (\<lambda>arr nd. push_back arr (nodeToJSON nd)) (VARR []) (nodes prf);
          r1 = (if nodes prf \<noteq> [] then pushKV (VOBJ []) T_NODES nodesArr else VOBJ []);
          pairsArr = foldl (\<lambda>arr pr. push_back arr (pairToJSON pr)) (VARR []) (pairs prf);
          r2 = (if pairs prf \<noteq> [] then pushKV r1 T_PAIRS pairsArr else r1)
      in if hasValue prf
         then pushKV
                (pushKV (pushKV r2 T_TXID (VSTR (GetHex (outPoint_hash (proof_outPoint prf)))))
                   T_N (VNUM (sint (outPoint_n (proof_outPoint prf)))))
                T_LASTTAKEOVERHEIGHT (VNUM (nHeightOfLastTakeover prf))
         else r2)"

text \<open>
  The end of both proof queries: the proof builder is called with the predicate, and a
  refusal is the error ``Failed to generate proof''.
\<close>

definition proofFor :: "CClaimTrieCache \<Rightarrow> string \<Rightarrow> (CClaimValue \<Rightarrow> bool) option \<Rightarrow> rpc_error + UniValue" where
  "proofFor tc nm cmp =
     (case getProofForName tc nm cmp of
        None \<Rightarrow> Inl Failed_to_generate_proof
      | Some prf \<Rightarrow> Inr (proofToJSON prf))"

definition getclaimproofbybid ::
  "'blk node \<Rightarrow> caches \<Rightarrow> string \<Rightarrow> int option \<Rightarrow> uint256 option \<Rightarrow> rpc_error + UniValue" where
  "getclaimproofbybid N cs0 nm p_bid p_blockhash =
     (let bid = (case p_bid of None \<Rightarrow> 0 | Some b \<Rightarrow> b)
      in if bid < 0 then Inl (should_not_be_a_negative_value T_BID)
         else (case historicalView N p_blockhash cs0 of
                 Inl e \<Rightarrow> Inl e
               | Inr cs \<Rightarrow>
                   (if bid \<noteq> 0
                    then (let csToName = getClaimsForName (trieCache cs) nm
                          in if beyond_size bid (claimsNsupports csToName) then Inr (VARR [])
                             else (let cid = claimId (claim (claimsNsupports csToName ! nat bid))
                                   in proofFor (trieCache cs) nm (Some (\<lambda>cl. claimId cl = cid))))
                    else proofFor (trieCache cs) nm None)))"

definition getclaimproofbyseq ::
  "externals \<Rightarrow> 'blk node \<Rightarrow> caches \<Rightarrow> string \<Rightarrow> int option \<Rightarrow> uint256 option \<Rightarrow> rpc_error + UniValue" where
  "getclaimproofbyseq X N cs0 nm p_seq p_blockhash =
     (let seq = (case p_seq of None \<Rightarrow> 0 | Some q \<Rightarrow> q)
      in if seq < 0 then Inl (should_not_be_a_negative_value T_SEQUENCE)
         else (case historicalView N p_blockhash cs0 of
                 Inl e \<Rightarrow> Inl e
               | Inr cs \<Rightarrow>
                   (let csToName = getClaimsForName (trieCache cs) nm
                    in if beyond_size seq (claimsNsupports csToName) then Inr (VARR [])
                       else (let cid = claimId (claim
                                         (if length (claimsNsupports csToName) = 1
                                          then claimsNsupports csToName ! 0
                                          else seqSort (sort_ties X) (claimsNsupports csToName) ! nat seq))
                             in proofFor (trieCache cs) nm (Some (\<lambda>cl. claimId cl = cid))))))"

section \<open>Auxiliary notions and example data\<close>

text \<open>The pair that the comparator of \<open>seqSort\<close> compares lexicographically.\<close>

definition seqKey :: "CClaimNsupports \<Rightarrow> int \<times> 32 word" where
  "seqKey c = (nHeight (claim c), outPoint_n (outPoint (claim c)))"

text \<open>The same pair followed by the rank that the library gave the element.\<close>

definition tiedKey :: "CClaimNsupports \<times> nat \<Rightarrow> (int \<times> 32 word) \<times> nat" where
  "tiedKey p = (seqKey (fst p), snd p)"

text \<open>The library that ranks all positions alike: its sort is stable.\<close>

definition noRank :: tie_order where
  "noRank source i = 0"

text \<open>A claim without supports: identifier, registered height, valid-at height, output index.\<close>

definition mkClaim :: "uint160 \<Rightarrow> int \<Rightarrow> int \<Rightarrow> 32 word \<Rightarrow> CClaimNsupports" where
  "mkClaim cid h v k =
     \<lparr>claim = \<lparr>outPoint = \<lparr>outPoint_hash = 0, outPoint_n = k\<rparr>, nAmount = 0, nHeight = h,
                nValidAtHeight = v, claimId = cid\<rparr>,
      effectiveAmount = 0, supports = []\<rparr>"

definition mkSupport :: "CAmount \<Rightarrow> CSupportValue" where
  "mkSupport a =
     \<lparr>outPoint = \<lparr>outPoint_hash = 0, outPoint_n = 0\<rparr>, nAmount = a, nHeight = 0,
      nValidAtHeight = 0\<rparr>"

text \<open>
  An environment over a given index whose sort ranks all positions alike, and a coin view
  in which every coin is spent.
\<close>

definition bareExternals :: "db_entry list \<Rightarrow> externals" where
  "bareExternals db =
     \<lparr>to_utf = Some, DecodeClaimScript = (\<lambda>s. None), EncodedDestination = (\<lambda>s. None),
      pclaimTrie_db = db, sort_ties = noRank\<rparr>"

definition spentCoins :: CCoinsViewCache where
  "spentCoins = \<lparr>AccessCoin = (\<lambda>p. \<lparr>IsSpent = True, out_scriptPubKey = []\<rparr>), DynamicMemoryUsage = 0\<rparr>"

text \<open>
  A claim of amount 100 whose effective amount is 100, with two supports of 30 and 20
  linked to it.
\<close>

definition pendingExample :: CClaimNsupports where
  "pendingExample =
     \<lparr>claim = \<lparr>outPoint = \<lparr>outPoint_hash = 0, outPoint_n = 0\<rparr>, nAmount = 100, nHeight = 10,
                nValidAtHeight = 10, claimId = 1\<rparr>,
      effectiveAmount = 100, supports = [mkSupport 30, mkSupport 20]\<rparr>"

text \<open>
  The block that \<open>d\<close> steps along \<^verbatim>\<open>pprev\<close> lead to, and the log of a loop that
  reads and disconnects \<open>d\<close> blocks from a block on.
\<close>

fun ancestor :: "nat \<Rightarrow> CBlockIndex \<Rightarrow> CBlockIndex option" where
  "ancestor 0 b = Some b"
| "ancestor (Suc d) b = (case pprev b of None \<Rightarrow> None | Some p \<Rightarrow> ancestor d p)"

fun stepsLog :: "nat \<Rightarrow> CBlockIndex \<Rightarrow> rollback_event list" where
  "stepsLog 0 b = []"
| "stepsLog (Suc d) b =
     Read_block b # Disconnect_block b # (case pprev b of None \<Rightarrow> [] | Some p \<Rightarrow> stepsLog d p)"

text \<open>
  A chain of \<open>n + 1\<close> blocks with heights \<open>0\<close> to \<open>n\<close>, a node on its tip whose
  store has every block, whose disconnect step succeeds and changes nothing, and whose
  signals are never raised; caches over a trie that has no claims.
\<close>

fun chainFrom :: "nat \<Rightarrow> CBlockIndex" where
  "chainFrom 0 = CBlockIndex 0 0 None"
| "chainFrom (Suc n) = CBlockIndex (of_nat (Suc n)) (int (Suc n)) (Some (chainFrom n))"

definition quietNode :: "nat \<Rightarrow> unit node" where
  "quietNode n =
     \<lparr>mapBlockIndex = (\<lambda>h. None), chainActive_Contains = (\<lambda>b. True),
      chainActive_Tip = chainFrom n, pcoinsTip_DynamicMemoryUsage = 0, nCoinCacheUsage = 1000,
      interruption_requested = (\<lambda>k. False), ShutdownRequested = (\<lambda>k. False),
      ReadBlockFromDisk = (\<lambda>b. Some ()), DisconnectBlock = (\<lambda>blk b c. (DISCONNECT_OK, c)),
      getMerkleHash = (\<lambda>t. t)\<rparr>"

definition emptyTrie :: "(string \<Rightarrow> (CClaimValue \<Rightarrow> bool) option \<Rightarrow> CClaimTrieProof option) \<Rightarrow> CClaimTrieCache" where
  "emptyTrie prover =
     \<lparr>getClaimsForName = (\<lambda>nm. \<lparr>name = nm, nLastTakeoverHeight = 0, claimsNsupports = [],
                                 unmatchedSupports = []\<rparr>),
      getProofForName = prover\<rparr>"

definition emptyCaches :: caches where
  "emptyCaches = \<lparr>coinsCache = spentCoins, trieCache = emptyTrie (\<lambda>nm c. None)\<rparr>"

text \<open>
  The entries of the identifier index proper: an entry of the database whose key decodes
  as a \<^verbatim>\<open>CLAIM_BY_ID\<close> key and whose value decodes as an index element.
\<close>

definition indexEntry :: "db_entry \<Rightarrow> (uint160 \<times> CClaimIndexElement) option" where
  "indexEntry e =
     (case entry_key e of
        OTHER_KEY \<Rightarrow> None
      | CLAIM_BY_ID cid \<Rightarrow> (case entry_value e of None \<Rightarrow> None | Some el \<Rightarrow> Some (cid, el)))"

text \<open>An index entry for a claim of a name, and three of them.\<close>

definition mkEntry :: "uint160 \<Rightarrow> string \<Rightarrow> db_entry" where
  "mkEntry cid nm =
     \<lparr>entry_key = CLAIM_BY_ID cid,
      entry_value = Some \<lparr>element_name = nm, element_claim = claim (mkClaim cid 10 10 0)\<rparr>\<rparr>"

definition exampleDb :: "db_entry list" where
  "exampleDb =
     [mkEntry 0x1234000000000000000000000000000000000001 ''first'',
      mkEntry 0xabcd000000000000000000000000000000000002 ''second'',
      mkEntry 0xabcd000000000000000000000000000000000003 ''third'']"

text \<open>
  Caches over a trie in which every name has the three claims \<open>B\<close>, \<open>C\<close>, \<open>A\<close> in
  bid order, and caches over the empty trie whose proof builder returns a proof that
  consists of a root node.
\<close>

definition threeClaims :: "CClaimNsupports list" where
  "threeClaims = [mkClaim 2 100 100 0, mkClaim 3 100 100 2, mkClaim 1 99 99 0]"

definition threeCaches :: caches where
  "threeCaches =
     \<lparr>coinsCache = spentCoins,
      trieCache = \<lparr>getClaimsForName = (\<lambda>nm. \<lparr>name = nm, nLastTakeoverHeight = 100,
                                                claimsNsupports = threeClaims,
                                                unmatchedSupports = []\<rparr>),
                   getProofForName = (\<lambda>nm c. None)\<rparr>\<rparr>"

definition rootProof :: CClaimTrieProof where
  "rootProof =
     \<lparr>nodes = [\<lparr>children = [], node_hasValue = False, valHash = 0\<rparr>], pairs = [],
      hasValue = False, proof_outPoint = \<lparr>outPoint_hash = 0, outPoint_n = 0\<rparr>,
      nHeightOfLastTakeover = 0\<rparr>"

definition provingCaches :: caches where
  "provingCaches = \<lparr>coinsCache = spentCoins, trieCache = emptyTrie (\<lambda>nm c. Some rootProof)\<rparr>"

text \<open>
  An index in good order: no identifier is the key of two entries, and every index entry
  is stored under the identifier of its claim, which is not the null identifier.
\<close>

definition keyOf :: "db_entry \<Rightarrow> uint160 option" where
  "keyOf e = (case entry_key e of CLAIM_BY_ID cid \<Rightarrow> Some cid | OTHER_KEY \<Rightarrow> None)"

definition consistentIndex :: "db_entry list \<Rightarrow> bool" where
  "consistentIndex db =
     (distinct (List.map_filter keyOf db) \<and>
      list_all (\<lambda>e. case indexEntry e of
                       None \<Rightarrow> True
                     | Some (cid, el) \<Rightarrow> cid \<noteq> 0 \<and> claimId (element_claim el) = cid) db)"

text \<open>
  Caches over the trie with the three claims whose proof builder returns the root proof
  for a request without predicate and refuses every request that has one.
\<close>

definition defaultOnlyCaches :: caches where
  "defaultOnlyCaches =
     \<lparr>coinsCache = spentCoins,
      trieCache = \<lparr>getClaimsForName = (\<lambda>nm. \<lparr>name = nm, nLastTakeoverHeight = 100,
                                                claimsNsupports = threeClaims,
                                                unmatchedSupports = []\<rparr>),
                   getProofForName = (\<lambda>nm c. case c of None \<Rightarrow> Some rootProof
                                                     | Some p \<Rightarrow> None)\<rparr>\<rparr>"

text \<open>
  Caches over a trie in which every name has two claims of the example index: in bid
  order the claim registered at height 100 comes first and the claim registered at
  height 99 second, so that the sequence order is the reverse of the bid order.
\<close>

definition indexedClaims :: "CClaimNsupports list" where
  "indexedClaims =
     [mkClaim 0xabcd000000000000000000000000000000000003 100 100 0,
      mkClaim 0xabcd000000000000000000000000000000000002 99 99 0]"

definition indexedCaches :: caches where
  "indexedCaches =
     \<lparr>coinsCache = spentCoins,
      trieCache = \<lparr>getClaimsForName = (\<lambda>nm. \<lparr>name = nm, nLastTakeoverHeight = 100,
                                                claimsNsupports = indexedClaims,
                                                unmatchedSupports = []\<rparr>),
                   getProofForName = (\<lambda>nm c. None)\<rparr>\<rparr>"

text \<open>
  The node on the chain of one block whose block index holds that block under its hash:
  a query with this block hash rewinds by no block.
\<close>

definition tipNode :: "unit node" where
  "tipNode = (quietNode 0)\<lparr>mapBlockIndex := (\<lambda>h. if h = 0 then Some (chainFrom 0) else None)\<rparr>"

text \<open>
  The library that ranks the positions of a vector in descending order, so that tied
  elements come out in the reverse of their input order; two claims that tie on
  registered height and output index, and caches over a trie in which every name has
  these two claims.
\<close>

definition reverseRank :: tie_order where
  "reverseRank source i = length source - i"

definition tiedClaims :: "CClaimNsupports list" where
  "tiedClaims = [mkClaim 5 100 100 0, mkClaim 4 100 100 0]"

definition tiedCaches :: caches where
  "tiedCaches =
     \<lparr>coinsCache = spentCoins,
      trieCache = \<lparr>getClaimsForName = (\<lambda>nm. \<lparr>name = nm, nLastTakeoverHeight = 100,
                                                claimsNsupports = tiedClaims,
                                                unmatchedSupports = []\<rparr>),
                   getProofForName = (\<lambda>nm c. None)\<rparr>\<rparr>"

section \<open>Properties of the ranking\<close>

lemma seqLess_seqKey: "seqLess a b \<longleftrightarrow> seqKey a < seqKey b"
  by (auto simp: seqLess_def seqKey_def Let_def less_prod_def)

lemma seqKey_le: "seqKey a \<le> seqKey b \<longleftrightarrow> \<not> seqLess b a"
  by (simp add: seqLess_seqKey not_less)

lemma tiedLess_tiedKey: "tiedLess a b \<longleftrightarrow> tiedKey a < tiedKey b"
  by (auto simp: tiedLess_def tiedKey_def seqLess_seqKey not_less)

lemma seqInsert_insort: "seqInsert x ys = insort_key tiedKey x ys"
  by (induction ys) (auto simp: tiedLess_tiedKey)

lemma foldr_seqInsert: "foldr seqInsert zs [] = sort_key tiedKey zs"
  by (induction zs) (simp_all add: seqInsert_insort)

lemma seqSort_sort_key:
  "seqSort ties xs = map fst (sort_key tiedKey (zip xs (map (ties xs) [0..<length xs])))"
  by (simp add: seqSort_def foldr_seqInsert)

lemma mset_seqSort: "mset (seqSort ties xs) = mset xs"
proof -
  have a: "mset (map fst (sort_key tiedKey zs)) = mset (map fst zs)" for zs
    by simp
  have b: "map fst (zip xs (map (ties xs) [0..<length xs])) = xs" by simp
  show ?thesis by (simp only: seqSort_sort_key a b)
qed

lemma length_seqSort: "length (seqSort ties xs) = length xs"
  by (simp add: seqSort_sort_key)

lemma set_seqSort: "set (seqSort ties xs) = set xs"
  using mset_seqSort [of ties xs] by (rule mset_eq_setD)

lemma sorted_wrt_seqSort: "sorted_wrt (\<lambda>a b. \<not> seqLess b a) (seqSort ties xs)"
proof -
  let ?zs = "sort_key tiedKey (zip xs (map (ties xs) [0..<length xs]))"
  have "sorted (map tiedKey ?zs)" by simp
  then have "sorted_wrt (\<lambda>a b. tiedKey a \<le> tiedKey b) ?zs"
    by (simp add: sorted_map)
  moreover have "tiedKey a \<le> tiedKey b \<Longrightarrow> \<not> seqLess (fst b) (fst a)" for a b
    by (auto simp: tiedKey_def seqLess_seqKey not_less)
  ultimately have "sorted_wrt (\<lambda>a b. \<not> seqLess (fst b) (fst a)) ?zs"
    by (rule sorted_wrt_mono_rel [rotated]) simp
  then show ?thesis by (simp add: seqSort_sort_key sorted_wrt_map)
qed

lemma sorted_seqSort: "sorted (map seqKey (seqSort ties xs))"
  using sorted_wrt_seqSort [of ties xs] by (simp add: sorted_map seqKey_le)

text \<open>
  Where no two claims share registered height and output index, the comparator leaves
  \<^verbatim>\<open>std::sort\<close> no choice: every ordered permutation of the input is the list that
  \<open>seqSort\<close> computes, whatever the ranks.
\<close>

lemma std_sort_unique:
  assumes "mset ys = mset xs" and "sorted_wrt (\<lambda>a b. \<not> seqLess b a) ys"
    and "distinct (map seqKey xs)"
  shows "ys = seqSort ties xs"
proof -
  have m: "mset (map seqKey ys) = mset (map seqKey xs)" using assms(1) by simp
  have dy: "distinct (map seqKey ys)"
    using m assms(3) by (metis distinct_count_atmost_1 set_mset_mset)
  have ds: "distinct (map seqKey (seqSort ties xs))"
    using assms(3) mset_seqSort [of ties xs]
    by (metis distinct_count_atmost_1 set_mset_mset mset_map)
  have sy: "sorted (map seqKey ys)"
    using assms(2) by (simp add: sorted_map seqKey_le)
  have st: "set ys = set (seqSort ties xs)"
    using assms(1) by (metis mset_eq_setD set_seqSort)
  have inj: "inj_on seqKey (set ys \<union> set (seqSort ties xs))"
    using dy st by (simp add: distinct_map)
  show ?thesis
    by (rule map_sorted_distinct_set_unique [OF inj sy dy sorted_seqSort ds st])
qed

text \<open>
  The ranks reach every result that \<^verbatim>\<open>std::sort\<close> may return: each ordered
  permutation of the input is \<open>seqSort ties\<close> of it for some \<open>ties\<close>, the one that
  ranks every position of the input by the place that its element has in the result.
\<close>

lemma std_sort_complete:
  assumes "mset ys = mset xs" and "sorted_wrt (\<lambda>a b. \<not> seqLess b a) ys"
  shows "\<exists>ties. seqSort ties xs = ys"
proof -
  define target where "target = zip ys [0..<length ys]"
  have lt: "length target = length ys" by (simp add: target_def)
  have "mset xs = mset ys" using assms(1) by simp
  from ex_mset_zip_left [of ys "[0..<length ys]" xs, OF _ this]
  obtain tags where t: "length tags = length xs" "mset (zip xs tags) = mset target"
    unfolding target_def by auto
  define zs where "zs = zip xs tags"
  have mz: "mset (sort_key tiedKey zs) = mset target"
    using t(2) by (simp add: zs_def)
  have nth: "target ! i = (ys ! i, i)" if "i < length ys" for i
    using that by (simp add: target_def)
  have le: "tiedKey (target ! i) \<le> tiedKey (target ! j)" if "i < j" "j < length target" for i j
  proof -
    have "\<not> seqLess (ys ! j) (ys ! i)"
      using assms(2) that lt by (simp add: sorted_wrt_iff_nth_less)
    then have "seqKey (ys ! i) \<le> seqKey (ys ! j)" by (simp add: seqKey_le)
    then show ?thesis using that lt by (simp add: nth tiedKey_def)
  qed
  have "sorted_wrt (\<lambda>a b. tiedKey a \<le> tiedKey b) target"
    unfolding sorted_wrt_iff_nth_less by (intro allI impI) (rule le)
  then have sy: "sorted (map tiedKey target)"
    by (simp add: sorted_map)
  have "map snd (map tiedKey target) = [0..<length ys]"
    by (simp add: target_def tiedKey_def comp_def)
  then have "distinct (map snd (map tiedKey target))" by simp
  then have dt: "distinct (map tiedKey target)"
    using distinct_map [of snd "map tiedKey target"] by blast
  have "mset (map tiedKey (sort_key tiedKey zs)) = mset (map tiedKey target)"
    using mz by (simp only: mset_map)
  then have dz: "distinct (map tiedKey (sort_key tiedKey zs))"
    using dt mset_eq_imp_distinct_iff by blast
  have st: "set target = set (sort_key tiedKey zs)"
    using mz mset_eq_setD by blast
  have "inj_on tiedKey (set target)"
    using dt distinct_map [of tiedKey target] by blast
  then have inj: "inj_on tiedKey (set target \<union> set (sort_key tiedKey zs))"
    using st by simp
  have ss: "sorted (map tiedKey (sort_key tiedKey zs))" by simp
  have e: "sort_key tiedKey zs = target"
    using map_sorted_distinct_set_unique [OF inj sy dt ss dz st] by simp
  have "map ((!) tags) [0..<length xs] = tags"
    using t(1) map_nth [of tags] by simp
  then have "seqSort (\<lambda>source i. tags ! i) xs = map fst (sort_key tiedKey zs)"
    by (simp add: seqSort_sort_key zs_def)
  also have "\<dots> = ys" unfolding e by (simp add: target_def)
  finally show ?thesis by blast
qed

text \<open>
  Two claims that tie come out in their input order under the one library and in the
  reverse order under the other.
\<close>

lemma tied_orders:
  "seqSort noRank tiedClaims = [mkClaim 5 100 100 0, mkClaim 4 100 100 0]"
  "seqSort reverseRank tiedClaims = [mkClaim 4 100 100 0, mkClaim 5 100 100 0]"
  by (simp_all add: noRank_def reverseRank_def tiedClaims_def seqSort_def tiedLess_def
        seqLess_def Let_def mkClaim_def)

lemma find_if_found: "\<exists>x\<in>set xs. P x \<Longrightarrow> find_if P xs < length xs \<and> P (xs ! find_if P xs)"
  by (induction xs) auto

lemma find_if_none: "\<forall>x\<in>set xs. \<not> P x \<Longrightarrow> find_if P xs = length xs"
  by (induction xs) auto

lemma indexOf_present:
  assumes "cid \<in> (\<lambda>c. claimId (claim c)) ` set order"
  shows "\<exists>p. indexOf order cid = Some p \<and> p < length order \<and> claimId (claim (order ! p)) = cid"
proof -
  have "\<exists>x\<in>set order. claimId (claim x) = cid" using assms by auto
  from find_if_found [of order "\<lambda>c. claimId (claim c) = cid", OF this]
  show ?thesis by (simp add: indexOf_def Let_def)
qed

lemma indexOf_absent:
  assumes "cid \<notin> (\<lambda>c. claimId (claim c)) ` set order"
  shows "indexOf order cid = None"
proof -
  have "\<forall>x\<in>set order. \<not> claimId (claim x) = cid" using assms by auto
  from find_if_none [of order "\<lambda>c. claimId (claim c) = cid", OF this]
  show ?thesis by (simp add: indexOf_def Let_def)
qed

text \<open>
  C2, as the code has it.  Whatever order the library gives to tied elements,
  \<open>seqSort\<close> returns a permutation of its input in which, for every two positions, the
  earlier claim has the smaller \<^emph>\<open>registered\<close> height \<open>nHeight\<close>, or the same
  registered height and an output index that is not larger.  The valid-at height
  \<open>nValidAtHeight\<close> plays no part.  For claims \<open>A\<close> (height 99), \<open>B\<close> (height 100,
  output index 0) and \<open>C\<close> (height 100, output index 2), the list \<open>[B, C, A]\<close> is put
  in the order \<open>[A, B, C]\<close>.
\<close>

theorem seqSort_orders_by_registered_height:
  "sorted_wrt (\<lambda>a b. nHeight (claim a) < nHeight (claim b) \<or>
                 (nHeight (claim a) = nHeight (claim b) \<and>
                  outPoint_n (outPoint (claim a)) \<le> outPoint_n (outPoint (claim b))))
     (seqSort ties source)
   \<and> mset (seqSort ties source) = mset source
   \<and> (nHeight (claim A) = 99 \<and> nHeight (claim B) = 100 \<and> nHeight (claim C) = 100 \<and>
      outPoint_n (outPoint (claim B)) = 0 \<and> outPoint_n (outPoint (claim C)) = 2
      \<longrightarrow> seqSort ties [B, C, A] = [A, B, C])"
proof -
  have "(\<lambda>a b. \<not> seqLess b a) =
        (\<lambda>a b. nHeight (claim a) < nHeight (claim b) \<or>
                 (nHeight (claim a) = nHeight (claim b) \<and>
                  outPoint_n (outPoint (claim a)) \<le> outPoint_n (outPoint (claim b))))"
    by (intro ext) (auto simp: seqLess_def Let_def)
  then have "sorted_wrt (\<lambda>a b. nHeight (claim a) < nHeight (claim b) \<or>
                 (nHeight (claim a) = nHeight (claim b) \<and>
                  outPoint_n (outPoint (claim a)) \<le> outPoint_n (outPoint (claim b))))
     (seqSort ties source)"
    using sorted_wrt_seqSort [of ties source] by simp
  moreover have "nHeight (claim A) = 99 \<and> nHeight (claim B) = 100 \<and> nHeight (claim C) = 100 \<and>
      outPoint_n (outPoint (claim B)) = 0 \<and> outPoint_n (outPoint (claim C)) = 2
      \<longrightarrow> seqSort ties [B, C, A] = [A, B, C]"
    by (simp add: seqSort_def tiedLess_def seqLess_def Let_def)
  ultimately show ?thesis by (simp add: mset_seqSort)
qed

theorem seqSort_orders_by_registered_height_witness:
  "nHeight (claim (mkClaim 1 99 99 0)) = 99 \<and> nHeight (claim (mkClaim 2 100 100 0)) = 100 \<and>
   nHeight (claim (mkClaim 3 100 100 2)) = 100 \<and>
   outPoint_n (outPoint (claim (mkClaim 2 100 100 0))) = 0 \<and>
   outPoint_n (outPoint (claim (mkClaim 3 100 100 2))) = 2 \<and>
   seqSort noRank [mkClaim 2 100 100 0, mkClaim 3 100 100 2, mkClaim 1 99 99 0]
     = [mkClaim 1 99 99 0, mkClaim 2 100 100 0, mkClaim 3 100 100 2]"
  using seqSort_orders_by_registered_height
          [of noRank "[]" "mkClaim 1 99 99 0" "mkClaim 2 100 100 0" "mkClaim 3 100 100 2"]
  by (simp add: mkClaim_def)

text \<open>
  C2 as stated fails.  A claim registered at height 1000 that becomes valid at height
  1030 precedes, in sequence order, a claim registered at height 1001 that is valid at
  once: the result is not ascending in the valid-at height.  The two claims differ in
  registered height, so that the order of tied elements has no part in this.
\<close>

theorem seqSort_valid_at_height_counterexample:
  "\<not> sorted_wrt (\<lambda>a b. nValidAtHeight (claim a) < nValidAtHeight (claim b) \<or>
                    (nValidAtHeight (claim a) = nValidAtHeight (claim b) \<and>
                     outPoint_n (outPoint (claim a)) \<le> outPoint_n (outPoint (claim b))))
       (seqSort noRank [mkClaim 2 1001 1001 0, mkClaim 1 1000 1030 0])"
  by (simp add: seqSort_def tiedLess_def seqLess_def Let_def mkClaim_def)

text \<open>
  C8.  For the claim list \<open>cs\<close> of a name, the bid order (the list itself) and the
  sequence order \<open>seqSort ties cs\<close> hold the same claims, each as often as the other,
  so both have the length of \<open>cs\<close>.  In either order, \<open>indexOf\<close> of an identifier that
  occurs in it returns a position inside the list at which the claim has that
  identifier; for an identifier that does not occur the assertion of \<open>indexOf\<close> fails.
\<close>

theorem orders_are_permutations_and_indexOf_inverts:
  "mset (seqSort ties cs) = mset cs \<and> length (seqSort ties cs) = length cs
   \<and> ((order = cs \<or> order = seqSort ties cs) \<longrightarrow>
        (cid \<in> (\<lambda>c. claimId (claim c)) ` set cs \<longrightarrow>
           (\<exists>p. indexOf order cid = Some p \<and> p < length cs \<and> claimId (claim (order ! p)) = cid))
        \<and> (cid \<notin> (\<lambda>c. claimId (claim c)) ` set cs \<longrightarrow> indexOf order cid = None))"
proof -
  have a: "mset (seqSort ties cs) = mset cs" by (rule mset_seqSort)
  have b: "length (seqSort ties cs) = length cs" by (rule length_seqSort)
  have c: "(cid \<in> (\<lambda>c. claimId (claim c)) ` set cs \<longrightarrow>
           (\<exists>p. indexOf order cid = Some p \<and> p < length cs \<and> claimId (claim (order ! p)) = cid))
        \<and> (cid \<notin> (\<lambda>c. claimId (claim c)) ` set cs \<longrightarrow> indexOf order cid = None)"
    if "order = cs \<or> order = seqSort ties cs"
  proof -
    from that have s: "set order = set cs" and l: "length order = length cs"
      by (auto simp: set_seqSort length_seqSort)
    show ?thesis
      using indexOf_present [of cid order] indexOf_absent [of cid order] s l by auto
  qed
  from a b c show ?thesis by blast
qed

theorem orders_are_permutations_and_indexOf_inverts_witness:
  "indexOf (seqSort noRank [mkClaim 7 100 100 0, mkClaim 9 99 99 0]) 7 = Some 1
   \<and> claimId (claim (seqSort noRank [mkClaim 7 100 100 0, mkClaim 9 99 99 0] ! 1)) = 7
   \<and> indexOf [mkClaim 7 100 100 0, mkClaim 9 99 99 0] 7 = Some 0
   \<and> indexOf (seqSort noRank [mkClaim 7 100 100 0, mkClaim 9 99 99 0]) 8 = None
   \<and> mset (seqSort noRank [mkClaim 7 100 100 0, mkClaim 9 99 99 0])
       = mset [mkClaim 7 100 100 0, mkClaim 9 99 99 0]"
proof -
  have s: "seqSort noRank [mkClaim 7 100 100 0, mkClaim 9 99 99 0]
             = [mkClaim 9 99 99 0, mkClaim 7 100 100 0]"
    by (simp add: seqSort_def tiedLess_def seqLess_def Let_def mkClaim_def)
  show ?thesis
    using orders_are_permutations_and_indexOf_inverts
            [of noRank "[mkClaim 7 100 100 0, mkClaim 9 99 99 0]"
                "seqSort noRank [mkClaim 7 100 100 0, mkClaim 9 99 99 0]" 7]
    unfolding s
    by (simp add: indexOf_def Let_def mkClaim_def)
qed

section \<open>Properties of the amounts\<close>

lemma map_of_putKV: "map_of (putKV k v kvs) = (map_of kvs)(k \<mapsto> v)"
  by (induction kvs) (auto simp: fun_eq_iff)

lemma addSupports_sum: "addSupports acc xs = acc + sum_list (map nAmount xs)"
  by (induction xs arbitrary: acc) auto

lemma claimToJSON_object:
  "\<exists>kvs. claimToJSON X coins cl = VOBJ kvs \<and> map_of kvs T_PENDINGAMOUNT = None
         \<and> map_of kvs T_BID = None \<and> map_of kvs T_SEQUENCE = None"
  by (simp add: claimToJSON_def pushCoin_def Let_def map_of_putKV split: option.splits)

lemma find_pending:
  "find_value (claimAndSupportsToJSON X coins cs) T_PENDINGAMOUNT =
     (if amountToClaim cs > effectiveAmount cs then Some (VNUM (amountToClaim cs)) else None)"
proof -
  obtain kvs where k: "claimToJSON X coins (claim cs) = VOBJ kvs"
    "map_of kvs T_PENDINGAMOUNT = None"
    using claimToJSON_object by blast
  show ?thesis
    by (simp add: claimAndSupportsToJSON_def Let_def k map_of_putKV)
qed

text \<open>
  C1, as the code has it.  In the object that \<open>claimAndSupportsToJSON\<close> returns, the
  pending-amount entry is there exactly when the full amount exceeds the effective
  amount, and its value is then the full amount itself, not the excess.  The full amount
  is what \<open>amountToClaim\<close> returns: the amount of the claim (not its effective amount)
  plus the amounts of all its supports.
\<close>

theorem pending_amount_is_full_amount:
  "find_value (claimAndSupportsToJSON X coins cs) T_PENDINGAMOUNT =
     (if amountToClaim cs > effectiveAmount cs then Some (VNUM (amountToClaim cs)) else None)
   \<and> amountToClaim cs = nAmount (claim cs) + sum_list (map nAmount (supports cs))"
  by (simp add: find_pending amountToClaim_def addSupports_sum)

text \<open>
  C1 as stated fails on its own example: with effective amount 100 and supports of 30
  and 20, the entry holds 150, and the claim has it hold the difference 50.
\<close>

theorem pending_amount_counterexample:
  "effectiveAmount pendingExample = 100
   \<and> map nAmount (supports pendingExample) = [30, 20]
   \<and> find_value (claimAndSupportsToJSON (bareExternals []) spentCoins pendingExample)
        T_PENDINGAMOUNT = Some (VNUM 150)
   \<and> (150 :: int) \<noteq> (100 + (30 + 20)) - 100"
  by (simp add: find_pending amountToClaim_def pendingExample_def mkSupport_def)

section \<open>Properties of the rewind\<close>

lemma rollBackLoop_append:
  "rollBackLoop N t k (Some b) cs (l1 @ l2) =
     (fst (rollBackLoop N t k (Some b) cs l2), l1 @ snd (rollBackLoop N t k (Some b) cs l2))"
proof (induction b arbitrary: k cs l1 l2)
  case (CBlockIndex h ht prev)
  show ?case
  proof (cases prev)
    case None
    then show ?thesis by (simp add: Let_def split: option.splits)
  next
    case (Some p)
    have ih: "\<And>k cs l1 l2. rollBackLoop N t k (Some p) cs (l1 @ l2) =
       (fst (rollBackLoop N t k (Some p) cs l2), l1 @ snd (rollBackLoop N t k (Some p) cs l2))"
      using CBlockIndex Some by simp
    show ?thesis
      unfolding Some
      by (simp add: Let_def ih split: option.splits)
  qed
qed

lemma ancestor_size: "ancestor d b = Some t \<Longrightarrow> size t \<le> size b"
proof (induction d arbitrary: b)
  case 0
  then show ?case by simp
next
  case (Suc d)
  then show ?case by (cases b) (fastforce split: option.splits)
qed

lemma ancestor_Suc_neq: "ancestor (Suc d) b = Some t \<Longrightarrow> b \<noteq> t"
proof
  assume a: "ancestor (Suc d) b = Some t" and e: "b = t"
  obtain h ht prev where b: "b = CBlockIndex h ht prev" by (cases b)
  from a b obtain p where p: "prev = Some p" "ancestor d p = Some t"
    by (auto split: option.splits)
  from ancestor_size [OF p(2)] have "size t \<le> size p" .
  with b p e show False by simp
qed

lemma rollBackLoop_success:
  assumes "\<forall>k. \<not> interruption_requested N k" and "\<forall>k. \<not> ShutdownRequested N k"
    and "\<forall>b. ReadBlockFromDisk N b \<noteq> None"
    and "\<forall>blk b. \<forall>c::caches. DynamicMemoryUsage (coinsCache (snd (DisconnectBlock N blk b c)))
                       \<le> DynamicMemoryUsage (coinsCache c) + g"
    and "\<forall>blk b c. fst (DisconnectBlock N blk b c) = DISCONNECT_OK"
  shows "ancestor d a = Some t \<Longrightarrow>
         DynamicMemoryUsage (coinsCache cs) + d * g + pcoinsTip_DynamicMemoryUsage N \<le> nCoinCacheUsage N \<Longrightarrow>
         \<exists>cs'. rollBackLoop N t k (Some a) cs log = (Inr cs', log @ stepsLog d a)"
proof (induction d arbitrary: a k cs log)
  case 0
  then have e: "a = t" by simp
  obtain h ht prev where "t = CBlockIndex h ht prev" by (cases t)
  with e show ?case by simp
next
  case (Suc d)
  obtain h ht prev where a: "a = CBlockIndex h ht prev" by (cases a)
  from Suc.prems(1) a obtain p where p: "prev = Some p" "ancestor d p = Some t"
    by (auto split: option.splits)
  have ne: "CBlockIndex h ht (Some p) \<noteq> t" using ancestor_Suc_neq [OF Suc.prems(1)] a p by simp
  obtain blk where blk: "ReadBlockFromDisk N (CBlockIndex h ht (Some p)) = Some blk"
    using assms(3) by (meson option.exhaust)
  have mem: "\<not> nCoinCacheUsage N < DynamicMemoryUsage (coinsCache cs) + pcoinsTip_DynamicMemoryUsage N"
    using Suc.prems(2) by simp
  have "DynamicMemoryUsage (coinsCache (snd (DisconnectBlock N blk (CBlockIndex h ht (Some p)) cs)))
          \<le> DynamicMemoryUsage (coinsCache cs) + g"
    using assms(4) by blast
  then have next_fits:
    "DynamicMemoryUsage (coinsCache (snd (DisconnectBlock N blk (CBlockIndex h ht (Some p)) cs)))
       + d * g + pcoinsTip_DynamicMemoryUsage N \<le> nCoinCacheUsage N"
    using Suc.prems(2) by simp
  from Suc.IH [OF p(2) next_fits] obtain cs' where
    "rollBackLoop N t (Suc k) (Some p) (snd (DisconnectBlock N blk (CBlockIndex h ht (Some p)) cs))
        (log @ [Read_block (CBlockIndex h ht (Some p)), Disconnect_block (CBlockIndex h ht (Some p))])
      = (Inr cs', (log @ [Read_block (CBlockIndex h ht (Some p)), Disconnect_block (CBlockIndex h ht (Some p))]) @ stepsLog d p)"
    by blast
  then show ?case
    using a p ne blk mem assms(1,2,5) by (simp add: Let_def)
qed

lemma rollBackLoop_never_too_deep:
  "fst (rollBackLoop N t k a cs log) \<noteq> Inl Block_is_too_deep"
  by (induction N t k a cs log rule: rollBackLoop.induct)
     (simp_all add: Let_def split: option.splits)

lemma block_nHeight_chainFrom: "block_nHeight (chainFrom n) = int n"
  by (cases n) simp_all

lemma ancestor_chainFrom: "ancestor d (chainFrom (m + d)) = Some (chainFrom m)"
  by (induction d) simp_all


text \<open>
  C3.  When the tip is more than 500 blocks above the target, \<open>RollBackTo\<close> fails with
  ``Block is too deep'' and its log is empty: no block was read and no disconnect step
  made.  When the tip is exactly 500 blocks above the target, the depth check passes:
  the outcome is never ``Block is too deep'', and the log is the log of the loop.  The
  first pass of the loop reads and disconnects the tip, provided that no interruption is
  requested, the block is read, the memory budget holds and no shutdown is requested.
  When the target is \<open>d\<close> steps below the tip and these checks pass at every step (the
  cache growing by at most \<open>g\<close> in a step, within the budget), the rewind succeeds after
  reading and disconnecting exactly these \<open>d\<close> blocks.
\<close>

theorem RollBackTo_depth_bound:
  "(block_nHeight (chainActive_Tip N) - block_nHeight targetIndex > 500 \<longrightarrow>
      RollBackTo N targetIndex cs = (Inl Block_is_too_deep, []))
   \<and> (block_nHeight (chainActive_Tip N) - block_nHeight targetIndex = 500 \<longrightarrow>
        fst (RollBackTo N targetIndex cs) \<noteq> Inl Block_is_too_deep
        \<and> snd (RollBackTo N targetIndex cs)
            = snd (rollBackLoop N targetIndex 0 (Some (chainActive_Tip N)) cs [])
        \<and> (\<not> interruption_requested N 0 \<and> ReadBlockFromDisk N (chainActive_Tip N) \<noteq> None \<and>
            DynamicMemoryUsage (coinsCache cs) + pcoinsTip_DynamicMemoryUsage N \<le> nCoinCacheUsage N \<and>
            \<not> ShutdownRequested N 0
            \<longrightarrow> take 2 (snd (RollBackTo N targetIndex cs))
                  = [Read_block (chainActive_Tip N), Disconnect_block (chainActive_Tip N)])
        \<and> (ancestor d (chainActive_Tip N) = Some targetIndex \<and>
            (\<forall>k. \<not> interruption_requested N k) \<and> (\<forall>k. \<not> ShutdownRequested N k) \<and>
            (\<forall>b. ReadBlockFromDisk N b \<noteq> None) \<and>
            (\<forall>blk b. \<forall>c::caches.
               DynamicMemoryUsage (coinsCache (snd (DisconnectBlock N blk b c)))
                 \<le> DynamicMemoryUsage (coinsCache c) + g) \<and>
            DynamicMemoryUsage (coinsCache cs) + d * g + pcoinsTip_DynamicMemoryUsage N
              \<le> nCoinCacheUsage N \<and>
            (\<forall>blk b c. fst (DisconnectBlock N blk b c) = DISCONNECT_OK)
            \<longrightarrow> (\<exists>cs'. RollBackTo N targetIndex cs = (Inr cs', stepsLog d (chainActive_Tip N)))))"
proof (intro conjI impI)
  assume "block_nHeight (chainActive_Tip N) - block_nHeight targetIndex > 500"
  then show "RollBackTo N targetIndex cs = (Inl Block_is_too_deep, [])"
    by (simp add: RollBackTo_def MAX_RPC_BLOCK_DECREMENTS_def)
next
  assume h: "block_nHeight (chainActive_Tip N) - block_nHeight targetIndex = 500"
  then have pass: "\<not> block_nHeight (chainActive_Tip N) > block_nHeight targetIndex + MAX_RPC_BLOCK_DECREMENTS"
    by (simp add: MAX_RPC_BLOCK_DECREMENTS_def)
  obtain r log where rl: "rollBackLoop N targetIndex 0 (Some (chainActive_Tip N)) cs [] = (r, log)"
    by (cases "rollBackLoop N targetIndex 0 (Some (chainActive_Tip N)) cs []")
  have nd: "r \<noteq> Inl Block_is_too_deep"
    using rollBackLoop_never_too_deep [of N targetIndex 0 "Some (chainActive_Tip N)" cs "[]"] rl
    by simp
  show "fst (RollBackTo N targetIndex cs) \<noteq> Inl Block_is_too_deep"
    using pass rl nd by (cases r) (simp_all add: RollBackTo_def)
  show sl: "snd (RollBackTo N targetIndex cs)
            = snd (rollBackLoop N targetIndex 0 (Some (chainActive_Tip N)) cs [])"
    using pass rl by (cases r) (simp_all add: RollBackTo_def)
  {
    assume c: "\<not> interruption_requested N 0 \<and> ReadBlockFromDisk N (chainActive_Tip N) \<noteq> None \<and>
            DynamicMemoryUsage (coinsCache cs) + pcoinsTip_DynamicMemoryUsage N \<le> nCoinCacheUsage N \<and>
            \<not> ShutdownRequested N 0"
    obtain hh ht prev where t: "chainActive_Tip N = CBlockIndex hh ht prev"
      by (cases "chainActive_Tip N")
    have ne: "CBlockIndex hh ht prev \<noteq> targetIndex" using h t by auto
    obtain blk where blk: "ReadBlockFromDisk N (CBlockIndex hh ht prev) = Some blk"
      using c t by auto
    have mem: "\<not> nCoinCacheUsage N < DynamicMemoryUsage (coinsCache cs) + pcoinsTip_DynamicMemoryUsage N"
      using c by (simp add: not_less)
    have "take 2 (snd (rollBackLoop N targetIndex 0 (Some (CBlockIndex hh ht prev)) cs []))
            = [Read_block (CBlockIndex hh ht prev), Disconnect_block (CBlockIndex hh ht prev)]"
    proof (cases prev)
      case None
      then show ?thesis using ne blk mem c by (simp add: Let_def)
    next
      case (Some p)
      show ?thesis
        using ne blk mem c unfolding Some
        by (simp add: Let_def
              rollBackLoop_append [of _ _ _ _ _ "[Read_block (CBlockIndex hh ht (Some p)), Disconnect_block (CBlockIndex hh ht (Some p))]" "[]", simplified])
    qed
    then show "take 2 (snd (RollBackTo N targetIndex cs))
                  = [Read_block (chainActive_Tip N), Disconnect_block (chainActive_Tip N)]"
      using sl t by simp
  }
  {
    assume c: "ancestor d (chainActive_Tip N) = Some targetIndex \<and>
            (\<forall>k. \<not> interruption_requested N k) \<and> (\<forall>k. \<not> ShutdownRequested N k) \<and>
            (\<forall>b. ReadBlockFromDisk N b \<noteq> None) \<and>
            (\<forall>blk b. \<forall>c::caches.
               DynamicMemoryUsage (coinsCache (snd (DisconnectBlock N blk b c)))
                 \<le> DynamicMemoryUsage (coinsCache c) + g) \<and>
            DynamicMemoryUsage (coinsCache cs) + d * g + pcoinsTip_DynamicMemoryUsage N
              \<le> nCoinCacheUsage N \<and>
            (\<forall>blk b c. fst (DisconnectBlock N blk b c) = DISCONNECT_OK)"
    from c rollBackLoop_success [of N g d "chainActive_Tip N" targetIndex cs 0 "[]"]
    obtain cs' where "rollBackLoop N targetIndex 0 (Some (chainActive_Tip N)) cs []
                        = (Inr cs', stepsLog d (chainActive_Tip N))"
      by auto
    then show "\<exists>cs'. RollBackTo N targetIndex cs = (Inr cs', stepsLog d (chainActive_Tip N))"
      using pass by (simp add: RollBackTo_def)
  }
qed

theorem RollBackTo_depth_bound_witness:
  "block_nHeight (chainActive_Tip (quietNode 501)) - block_nHeight (chainFrom 0) > 500
   \<and> RollBackTo (quietNode 501) (chainFrom 0) emptyCaches = (Inl Block_is_too_deep, [])
   \<and> block_nHeight (chainActive_Tip (quietNode 500)) - block_nHeight (chainFrom 0) = 500
   \<and> ancestor 500 (chainActive_Tip (quietNode 500)) = Some (chainFrom 0)
   \<and> fst (RollBackTo (quietNode 500) (chainFrom 0) emptyCaches) \<noteq> Inl Block_is_too_deep
   \<and> take 2 (snd (RollBackTo (quietNode 500) (chainFrom 0) emptyCaches))
       = [Read_block (chainFrom 500), Disconnect_block (chainFrom 500)]
   \<and> (\<exists>cs'. RollBackTo (quietNode 500) (chainFrom 0) emptyCaches
              = (Inr cs', stepsLog 500 (chainFrom 500)))"
proof -
  have h1: "block_nHeight (chainActive_Tip (quietNode 501)) - block_nHeight (chainFrom 0) > 500"
    by (simp add: quietNode_def block_nHeight_chainFrom)
  have h0: "block_nHeight (chainActive_Tip (quietNode 500)) - block_nHeight (chainFrom 0) = 500"
    by (simp add: quietNode_def block_nHeight_chainFrom)
  have a: "ancestor 500 (chainActive_Tip (quietNode 500)) = Some (chainFrom 0)"
    using ancestor_chainFrom [of 500 0] by (simp add: quietNode_def)
  have t: "chainActive_Tip (quietNode 500) = chainFrom 500"
    by (simp add: quietNode_def)
  have q: "\<not> interruption_requested (quietNode 500) k" "\<not> ShutdownRequested (quietNode 500) k"
     "ReadBlockFromDisk (quietNode 500) b \<noteq> None"
     "DynamicMemoryUsage (coinsCache emptyCaches) + pcoinsTip_DynamicMemoryUsage (quietNode 500)
        \<le> nCoinCacheUsage (quietNode 500)"
     "fst (DisconnectBlock (quietNode 500) blk b c) = DISCONNECT_OK" for k b blk c
    by (simp_all add: quietNode_def emptyCaches_def spentCoins_def)
  have m: "DynamicMemoryUsage (coinsCache (snd (DisconnectBlock (quietNode 500) blk b c)))
                 \<le> DynamicMemoryUsage (coinsCache c) + 0" for blk b and c :: caches
    by (simp add: quietNode_def)
  note T1 = RollBackTo_depth_bound [of "quietNode 501" "chainFrom 0" emptyCaches 0 0]
  note T0 = RollBackTo_depth_bound [of "quietNode 500" "chainFrom 0" emptyCaches 500 0]
  have c1: "RollBackTo (quietNode 501) (chainFrom 0) emptyCaches = (Inl Block_is_too_deep, [])"
    using T1 h1 by blast
  have c2: "fst (RollBackTo (quietNode 500) (chainFrom 0) emptyCaches) \<noteq> Inl Block_is_too_deep"
    using T0 h0 by blast
  have "take 2 (snd (RollBackTo (quietNode 500) (chainFrom 0) emptyCaches))
       = [Read_block (chainActive_Tip (quietNode 500)), Disconnect_block (chainActive_Tip (quietNode 500))]"
    using T0 h0 q(1) [of 0] q(2) [of 0] q(3) [of "chainActive_Tip (quietNode 500)"] q(4) by blast
  then have c3: "take 2 (snd (RollBackTo (quietNode 500) (chainFrom 0) emptyCaches))
       = [Read_block (chainFrom 500), Disconnect_block (chainFrom 500)]"
    by (simp only: t)
  have f: "DynamicMemoryUsage (coinsCache emptyCaches) + 500 * 0
             + pcoinsTip_DynamicMemoryUsage (quietNode 500) \<le> nCoinCacheUsage (quietNode 500)"
    using q(4) by simp
  have "\<exists>cs'. RollBackTo (quietNode 500) (chainFrom 0) emptyCaches
              = (Inr cs', stepsLog 500 (chainActive_Tip (quietNode 500)))"
    using T0 h0 a q(1,2,3,5) m f by blast
  then have c4: "\<exists>cs'. RollBackTo (quietNode 500) (chainFrom 0) emptyCaches
              = (Inr cs', stepsLog 500 (chainFrom 500))"
    by (simp only: t)
  from h1 c1 h0 a c2 c3 c4 show ?thesis by blast
qed

section \<open>Properties of the identifier lookup\<close>

lemma visitEntry_indexEntry:
  "visitEntry p [] e =
     (case indexEntry e of
        None \<Rightarrow> None
      | Some (cid, el) \<Rightarrow>
          (if find_at_0 (GetHex cid) p then Some (element_name el, element_claim el) else None))"
  by (simp add: visitEntry_def indexEntry_def split: db_key.splits option.splits)

lemma scan_first:
  "i < length db \<Longrightarrow> visitEntry p nm (db ! i) = Some r \<Longrightarrow>
   (\<forall>j<i. visitEntry p nm (db ! j) = None) \<Longrightarrow>
   scanClaimById p nm k db = (Some r, map Cursor_at [k..<k + Suc i])"
proof (induction db arbitrary: i k)
  case Nil
  then show ?case by simp
next
  case (Cons e es)
  show ?case
  proof (cases i)
    case 0
    with Cons.prems show ?thesis by simp
  next
    case (Suc i')
    have e: "visitEntry p nm e = None" using Cons.prems(3) Suc by auto
    have "scanClaimById p nm (Suc k) es = (Some r, map Cursor_at [Suc k..<Suc k + Suc i'])"
      using Cons.prems Suc by (intro Cons.IH) auto
    then show ?thesis using e Suc by (simp add: upt_conv_Cons del: upt_Suc)
  qed
qed

lemma scan_none:
  "(\<forall>j<length db. visitEntry p nm (db ! j) = None) \<Longrightarrow>
   scanClaimById p nm k db = (None, map Cursor_at [k..<k + length db])"
proof (induction db arbitrary: k)
  case Nil
  then show ?case by simp
next
  case (Cons e es)
  have e: "visitEntry p nm e = None" using Cons.prems by auto
  have "scanClaimById p nm (Suc k) es = (None, map Cursor_at [Suc k..<Suc k + length es])"
    using Cons.prems by (intro Cons.IH) auto
  then show ?case using e by (simp add: upt_conv_Cons del: upt_Suc)
qed

text \<open>
  C6.  For a prefix \<open>p\<close> of at least 3 characters and no name given, the scan of
  \<open>getClaimById_partial\<close> visits the entries in the order of the cursor.  If the
  entry at position \<open>i\<close> is the first index entry whose identifier text starts with
  \<open>p\<close>, the scan returns the name and the claim of that entry and has visited exactly
  the positions \<open>0\<close> to \<open>i\<close>; whatever follows, also a matching entry of another
  name, is never looked at and no error arises.  If no index entry matches, the scan
  visits every entry and finds nothing.  For a text that is not 40 characters long this
  scan is the whole lookup of \<^verbatim>\<open>getclaimbyid\<close>.
\<close>

theorem partial_lookup_first_match:
  "3 \<le> length p \<longrightarrow>
     (i < length db \<and> indexEntry (db ! i) = Some (cid, el) \<and> find_at_0 (GetHex cid) p \<and>
      (\<forall>j<i. \<forall>cid' el'. indexEntry (db ! j) = Some (cid', el') \<longrightarrow> \<not> find_at_0 (GetHex cid') p)
      \<longrightarrow> getClaimById_partial db p []
            = (Some (element_name el, element_claim el), map Cursor_at [0..<Suc i]))
   \<and> ((\<forall>j<length db. \<forall>cid' el'. indexEntry (db ! j) = Some (cid', el')
                          \<longrightarrow> \<not> find_at_0 (GetHex cid') p)
      \<longrightarrow> getClaimById_partial db p [] = (None, map Cursor_at [0..<length db]))
   \<and> (length p \<noteq> 40 \<longrightarrow> resolveClaimId db p = getClaimById_partial db p [])"
proof (intro impI conjI)
  assume l: "3 \<le> length p"
  then have ne: "p \<noteq> []" by auto
  {
    assume a: "i < length db \<and> indexEntry (db ! i) = Some (cid, el) \<and> find_at_0 (GetHex cid) p \<and>
      (\<forall>j<i. \<forall>cid' el'. indexEntry (db ! j) = Some (cid', el') \<longrightarrow> \<not> find_at_0 (GetHex cid') p)"
    have v: "visitEntry p [] (db ! i) = Some (element_name el, element_claim el)"
      using a by (simp add: visitEntry_indexEntry)
    have n: "\<forall>j<i. visitEntry p [] (db ! j) = None"
      using a by (auto simp: visitEntry_indexEntry split: option.splits)
    show "getClaimById_partial db p []
            = (Some (element_name el, element_claim el), map Cursor_at [0..<Suc i])"
      using scan_first [of i db p "[]" _ 0, OF _ v n] a ne
      by (simp add: getClaimById_partial_def)
  }
  {
    assume a: "\<forall>j<length db. \<forall>cid' el'. indexEntry (db ! j) = Some (cid', el')
                          \<longrightarrow> \<not> find_at_0 (GetHex cid') p"
    have n: "\<forall>j<length db. visitEntry p [] (db ! j) = None"
      using a by (auto simp: visitEntry_indexEntry split: option.splits)
    show "getClaimById_partial db p [] = (None, map Cursor_at [0..<length db])"
      using scan_none [of db p "[]" 0, OF n] ne by (simp add: getClaimById_partial_def)
  }
  {
    assume "length p \<noteq> 40"
    then show "resolveClaimId db p = getClaimById_partial db p []"
      by (simp add: resolveClaimId_def claimIdHexLength_def)
  }
qed

lemma GetHex_1: "GetHex (0x1234000000000000000000000000000000000001 :: uint160)
                   = ''1234000000000000000000000000000000000001''"
  by (simp add: GetHex_def hexChar_def upt_conv_Cons)

lemma GetHex_2: "GetHex (0xabcd000000000000000000000000000000000002 :: uint160)
                   = ''abcd000000000000000000000000000000000002''"
  by (simp add: GetHex_def hexChar_def upt_conv_Cons)

lemma GetHex_3: "GetHex (0xabcd000000000000000000000000000000000003 :: uint160)
                   = ''abcd000000000000000000000000000000000003''"
  by (simp add: GetHex_def hexChar_def upt_conv_Cons)

theorem partial_lookup_first_match_witness:
  "3 \<le> length ''abcd'' \<and> length ''abcd'' \<noteq> (40::nat)
   \<and> element_name (the (entry_value (exampleDb ! 1))) \<noteq> element_name (the (entry_value (exampleDb ! 2)))
   \<and> find_at_0 (GetHex (0xabcd000000000000000000000000000000000002 :: uint160)) ''abcd''
   \<and> find_at_0 (GetHex (0xabcd000000000000000000000000000000000003 :: uint160)) ''abcd''
   \<and> resolveClaimId exampleDb ''abcd''
       = (Some (''second'', claim (mkClaim 0xabcd000000000000000000000000000000000002 10 10 0)),
          [Cursor_at 0, Cursor_at 1])
   \<and> getClaimById_partial exampleDb ''ffff'' [] = (None, [Cursor_at 0, Cursor_at 1, Cursor_at 2])"
proof -
  have e0: "indexEntry (exampleDb ! 0) = Some (0x1234000000000000000000000000000000000001,
              \<lparr>element_name = ''first'', element_claim = claim (mkClaim 0x1234000000000000000000000000000000000001 10 10 0)\<rparr>)"
    and e1: "indexEntry (exampleDb ! 1) = Some (0xabcd000000000000000000000000000000000002,
              \<lparr>element_name = ''second'', element_claim = claim (mkClaim 0xabcd000000000000000000000000000000000002 10 10 0)\<rparr>)"
    and e2: "indexEntry (exampleDb ! 2) = Some (0xabcd000000000000000000000000000000000003,
              \<lparr>element_name = ''third'', element_claim = claim (mkClaim 0xabcd000000000000000000000000000000000003 10 10 0)\<rparr>)"
    by (simp_all add: exampleDb_def mkEntry_def indexEntry_def)
  have l: "length exampleDb = 3" by (simp add: exampleDb_def)
  have f1: "\<not> find_at_0 (GetHex (0x1234000000000000000000000000000000000001 :: uint160)) ''abcd''"
    and f2: "find_at_0 (GetHex (0xabcd000000000000000000000000000000000002 :: uint160)) ''abcd''"
    and f3: "find_at_0 (GetHex (0xabcd000000000000000000000000000000000003 :: uint160)) ''abcd''"
    and g1: "\<not> find_at_0 (GetHex (0x1234000000000000000000000000000000000001 :: uint160)) ''ffff''"
    and g2: "\<not> find_at_0 (GetHex (0xabcd000000000000000000000000000000000002 :: uint160)) ''ffff''"
    and g3: "\<not> find_at_0 (GetHex (0xabcd000000000000000000000000000000000003 :: uint160)) ''ffff''"
    by (simp_all add: GetHex_1 GetHex_2 GetHex_3 find_at_0_def)
  have b: "\<forall>j<1. \<forall>cid' el'. indexEntry (exampleDb ! j) = Some (cid', el')
             \<longrightarrow> \<not> find_at_0 (GetHex cid') ''abcd''"
    using e0 f1 by auto
  have c: "\<forall>j<length exampleDb. \<forall>cid' el'. indexEntry (exampleDb ! j) = Some (cid', el')
             \<longrightarrow> \<not> find_at_0 (GetHex cid') ''ffff''"
  proof (intro allI impI)
    fix j cid' el'
    assume "j < length exampleDb" and h: "indexEntry (exampleDb ! j) = Some (cid', el')"
    then have "j = 0 \<or> j = 1 \<or> j = 2" using l by auto
    then show "\<not> find_at_0 (GetHex cid') ''ffff''"
      using h e0 e1 e2 g1 g2 g3 by auto
  qed
  note T = partial_lookup_first_match [of "''abcd''" 1 exampleDb
             "0xabcd000000000000000000000000000000000002"
             "\<lparr>element_name = ''second'', element_claim = claim (mkClaim 0xabcd000000000000000000000000000000000002 10 10 0)\<rparr>"]
  note U = partial_lookup_first_match [of "''ffff''" 0 exampleDb 0
             "\<lparr>element_name = [], element_claim = claim (mkClaim 0 0 0 0)\<rparr>"]
  have r1: "getClaimById_partial exampleDb ''abcd'' []
       = (Some (''second'', claim (mkClaim 0xabcd000000000000000000000000000000000002 10 10 0)),
          map Cursor_at [0..<Suc 1])"
    using T e1 f2 b l by simp
  have r2: "resolveClaimId exampleDb ''abcd'' = getClaimById_partial exampleDb ''abcd'' []"
    using T by simp
  have r3: "getClaimById_partial exampleDb ''ffff'' [] = (None, map Cursor_at [0..<length exampleDb])"
    using U c by simp
  have n: "element_name (the (entry_value (exampleDb ! 1))) \<noteq> element_name (the (entry_value (exampleDb ! 2)))"
    by (simp add: exampleDb_def mkEntry_def)
  show ?thesis
    using r1 r2 r3 n f2 f3 l by (simp add: upt_conv_Cons)
qed

lemma partial_lookup_none:
  assumes "\<forall>j<length db. \<forall>cid' el'. indexEntry (db ! j) = Some (cid', el')
             \<longrightarrow> \<not> find_at_0 (GetHex cid') p"
    and "p \<noteq> []"
  shows "getClaimById_partial db p [] = (None, map Cursor_at [0..<length db])"
proof -
  have n: "\<forall>j<length db. visitEntry p [] (db ! j) = None"
    using assms(1) by (auto simp: visitEntry_indexEntry split: option.splits)
  show ?thesis
    using scan_none [of db p "[]" 0, OF n] assms(2) by (simp add: getClaimById_partial_def)
qed

lemma getclaimbyid_accepted:
  assumes "ParseClaimtrieId v = Inr s" and "3 \<le> length s"
  shows "(\<exists>rest. snd (getclaimbyid X cs v) = snd (resolveClaimId (pclaimTrie_db X) s) @ rest)
         \<and> fst (getclaimbyid X cs v) \<noteq> Inl must_be_a_hexadecimal_string
         \<and> fst (getclaimbyid X cs v) \<noteq> Inl must_be_max_20_character_hexadecimal_string
         \<and> fst (getclaimbyid X cs v) \<noteq> Inl should_be_at_least_3_chars"
proof -
  obtain r log where rl: "resolveClaimId (pclaimTrie_db X) s = (r, log)"
    by (cases "resolveClaimId (pclaimTrie_db X) s")
  show ?thesis
  proof (cases r)
    case None
    then show ?thesis using assms rl by (simp add: getclaimbyid_def)
  next
    case (Some found)
    obtain nm cl where f: "found = (nm, cl)" by (cases found)
    show ?thesis
      using assms rl Some f
      by (simp add: getclaimbyid_def Let_def split: option.splits prod.splits)
  qed
qed

lemma HexDigit_table: "k < 16 \<Longrightarrow> HexDigit (''0123456789abcdef'' ! k) = int k"
proof -
  assume "k < 16"
  then have "k = 0 \<or> k = 1 \<or> k = 2 \<or> k = 3 \<or> k = 4 \<or> k = 5 \<or> k = 6 \<or> k = 7 \<or> k = 8
           \<or> k = 9 \<or> k = 10 \<or> k = 11 \<or> k = 12 \<or> k = 13 \<or> k = 14 \<or> k = 15"
    by arith
  then show ?thesis by (auto simp: HexDigit_def)
qed

lemma HexDigit_hexChar: "HexDigit (hexChar d) = int (d mod 16)"
  by (simp add: hexChar_def HexDigit_table)

lemma foldl_hex_digits:
  "foldl (\<lambda>v c. 16 * v + nat (HexDigit c)) a (map (\<lambda>i. hexChar (v div 16 ^ i)) (rev [0..<n]))
     = a * 16 ^ n + v mod 16 ^ n"
proof (induction n arbitrary: a)
  case 0
  then show ?case by simp
next
  case (Suc n)
  have "foldl (\<lambda>v c. 16 * v + nat (HexDigit c)) a
          (map (\<lambda>i. hexChar (v div 16 ^ i)) (rev [0..<Suc n]))
        = foldl (\<lambda>v c. 16 * v + nat (HexDigit c)) (16 * a + v div 16 ^ n mod 16)
            (map (\<lambda>i. hexChar (v div 16 ^ i)) (rev [0..<n]))"
    by (simp add: HexDigit_hexChar)
  also have "\<dots> = (16 * a + v div 16 ^ n mod 16) * 16 ^ n + v mod 16 ^ n"
    by (rule Suc.IH)
  also have "\<dots> = a * 16 ^ Suc n + v mod 16 ^ Suc n"
    using mod_mult2_eq [of v "16 ^ n" 16] by (simp add: algebra_simps)
  finally show ?case .
qed

lemma natOfHex_GetHex: "natOfHex (GetHex (w :: uint160)) = unat w"
proof -
  have all: "takeWhile (\<lambda>c. 0 \<le> HexDigit c) (GetHex w) = GetHex w"
    by (simp add: GetHex_def HexDigit_hexChar)
  have "unat w < 2 ^ LENGTH(160)" by (rule unsigned_less)
  then have "unat w mod 16 ^ 40 = unat w" by simp
  then show ?thesis
    unfolding natOfHex_def all
    by (simp add: GetHex_def foldl_hex_digits)
qed

lemma uint160S_GetHex: "uint160S (GetHex (w :: uint160)) = w"
  by (simp add: uint160S_def natOfHex_GetHex)

lemma length_GetHex160: "length (GetHex (w :: uint160)) = 40"
  by (simp add: GetHex_def)

lemma find_at_0_full:
  "length s = 40 \<Longrightarrow> find_at_0 (GetHex (w :: uint160)) s \<Longrightarrow> uint160S s = w"
  using uint160S_GetHex [of w] by (simp add: find_at_0_def length_GetHex160)


lemma key_in_map_filter:
  "e \<in> set xs \<Longrightarrow> keyOf e = Some cid \<Longrightarrow> cid \<in> set (List.map_filter keyOf xs)"
  by (induction xs) (auto simp: map_filter_simps split: option.splits)

lemma find_by_key:
  "distinct (List.map_filter keyOf db) \<Longrightarrow> e \<in> set db \<Longrightarrow> entry_key e = CLAIM_BY_ID cid \<Longrightarrow>
   List.find (\<lambda>e. entry_key e = CLAIM_BY_ID cid) db = Some e"
proof (induction db)
  case Nil
  then show ?case by simp
next
  case (Cons x xs)
  show ?case
  proof (cases "entry_key x = CLAIM_BY_ID cid")
    case True
    have "e = x"
    proof (rule ccontr)
      assume "e \<noteq> x"
      then have "e \<in> set xs" using Cons.prems(2) by simp
      then have "cid \<in> set (List.map_filter keyOf xs)"
        using Cons.prems(3) by (intro key_in_map_filter [of e]) (simp_all add: keyOf_def)
      moreover have "keyOf x = Some cid" using True by (simp add: keyOf_def)
      ultimately show False
        using Cons.prems(1) by (simp add: map_filter_simps)
    qed
    then show ?thesis using True by simp
  next
    case False
    then have "e \<in> set xs" using Cons.prems(2,3) by auto
    moreover have "distinct (List.map_filter keyOf xs)"
      using Cons.prems(1) by (simp add: map_filter_simps split: option.splits)
    ultimately show ?thesis using Cons.IH Cons.prems(3) False by simp
  qed
qed

lemma scan_some_entry:
  "fst (scanClaimById p nm k db) = Some r \<Longrightarrow> \<exists>e\<in>set db. visitEntry p nm e = Some r"
  by (induction db arbitrary: k) (auto split: option.splits)

lemma consistent_scan_none:
  assumes "consistentIndex db" and "length s = 40"
    and "fst (getClaimById db (uint160S s)) = None"
  shows "fst (getClaimById_partial db s []) = None"
proof (rule ccontr)
  assume "fst (getClaimById_partial db s []) \<noteq> None"
  then obtain r where "fst (scanClaimById s [] 0 db) = Some r"
    by (auto simp: getClaimById_partial_def split: if_splits)
  from scan_some_entry [OF this] obtain e where e: "e \<in> set db" "visitEntry s [] e = Some r"
    by blast
  from e(2) obtain cid el where i: "indexEntry e = Some (cid, el)" "find_at_0 (GetHex cid) s"
    by (auto simp: visitEntry_indexEntry split: option.splits if_splits)
  have c: "uint160S s = cid" using find_at_0_full [OF assms(2) i(2)] .
  have k: "entry_key e = CLAIM_BY_ID cid" "entry_value e = Some el"
    using i(1) by (auto simp: indexEntry_def split: db_key.splits option.splits)
  have w: "cid \<noteq> 0 \<and> claimId (element_claim el) = cid"
    using assms(1) e(1) i(1) by (auto simp: consistentIndex_def list_all_iff)
  have "List.find (\<lambda>e. entry_key e = CLAIM_BY_ID cid) db = Some e"
    using find_by_key [OF _ e(1) k(1)] assms(1) by (simp add: consistentIndex_def)
  then have "fst (getClaimById db cid) = Some (element_name el, element_claim el)"
    using k(2) w by (simp add: getClaimById_def db_Read_def)
  then show False using assms(3) c by simp
qed

lemma consistent_exampleDb: "consistentIndex exampleDb"
  by (simp add: consistentIndex_def exampleDb_def mkEntry_def indexEntry_def keyOf_def
        map_filter_simps mkClaim_def)

text \<open>
  C4, as the code has it.  For a text of 40 characters that \<open>IsHexNumber\<close> accepts,
  the lookup of \<^verbatim>\<open>getclaimbyid\<close> starts with the point lookup.  When the point
  lookup finds the entry, its result is the result of the lookup and the only access to
  the index is that one read.  When it finds nothing, the scan of the index with the
  whole text as prefix follows and decides the result; if no index entry matches, the
  cursor visits every entry.  In an index in good order the scan then finds nothing
  either, so that the result of the lookup is the result of the point lookup in both
  cases.  The log of \<^verbatim>\<open>getclaimbyid\<close> starts with the log of this lookup.
\<close>

theorem exact_lookup_then_scan:
  "IsHexNumber s \<and> length s = 40 \<longrightarrow>
     (\<forall>r. fst (getClaimById db (uint160S s)) = Some r \<longrightarrow>
            resolveClaimId db s = (Some r, [Read_key (uint160S s)]))
   \<and> (fst (getClaimById db (uint160S s)) = None \<longrightarrow>
        resolveClaimId db s
          = (fst (getClaimById_partial db s []),
             snd (getClaimById db (uint160S s)) @ snd (getClaimById_partial db s []))
        \<and> ((\<forall>j<length db. \<forall>cid' el'. indexEntry (db ! j) = Some (cid', el')
                               \<longrightarrow> \<not> find_at_0 (GetHex cid') s)
            \<longrightarrow> snd (getClaimById_partial db s []) = map Cursor_at [0..<length db]))
   \<and> (consistentIndex db \<longrightarrow> fst (resolveClaimId db s) = fst (getClaimById db (uint160S s)))
   \<and> (pclaimTrie_db X = db \<longrightarrow>
        (\<exists>rest. snd (getclaimbyid X cs (VSTR s)) = snd (resolveClaimId db s) @ rest))"
proof (intro impI conjI allI)
  assume v: "IsHexNumber s \<and> length s = 40"
  {
    assume c: "consistentIndex db"
    show "fst (resolveClaimId db s) = fst (getClaimById db (uint160S s))"
    proof (cases "fst (getClaimById db (uint160S s))")
      case None
      then show ?thesis
        using consistent_scan_none [OF c, of s] v
        by (simp add: resolveClaimId_def claimIdHexLength_def)
    next
      case (Some r)
      then show ?thesis using v by (simp add: resolveClaimId_def claimIdHexLength_def)
    qed
  }
  {
    fix r assume f: "fst (getClaimById db (uint160S s)) = Some r"
    then have "snd (getClaimById db (uint160S s)) = [Read_key (uint160S s)]"
      by (auto simp: getClaimById_def split: if_splits option.splits)
    then show "resolveClaimId db s = (Some r, [Read_key (uint160S s)])"
      using f v by (simp add: resolveClaimId_def claimIdHexLength_def)
  }
  {
    assume f: "fst (getClaimById db (uint160S s)) = None"
    then show "resolveClaimId db s
          = (fst (getClaimById_partial db s []),
             snd (getClaimById db (uint160S s)) @ snd (getClaimById_partial db s []))"
      using v by (simp add: resolveClaimId_def claimIdHexLength_def)
  }
  {
    assume "\<forall>j<length db. \<forall>cid' el'. indexEntry (db ! j) = Some (cid', el')
                               \<longrightarrow> \<not> find_at_0 (GetHex cid') s"
    then show "snd (getClaimById_partial db s []) = map Cursor_at [0..<length db]"
      using partial_lookup_none [of db s] v by (auto simp: IsHexNumber_def)
  }
  {
    assume d: "pclaimTrie_db X = db"
    have p: "ParseClaimtrieId (VSTR s) = Inr s"
      using v by (simp add: ParseClaimtrieId_def claimIdHexLength_def)
    show "\<exists>rest. snd (getclaimbyid X cs (VSTR s)) = snd (resolveClaimId db s) @ rest"
      using getclaimbyid_accepted [OF p, of X cs] v d by simp
  }
qed


lemma uint160S_second:
  "uint160S ''abcd000000000000000000000000000000000002'' = 0xabcd000000000000000000000000000000000002"
  by (simp add: uint160S_def natOfHex_def HexDigit_def)

lemma uint160S_absent:
  "uint160S ''ffff000000000000000000000000000000000009'' = 0xffff000000000000000000000000000000000009"
  by (simp add: uint160S_def natOfHex_def HexDigit_def)

lemma IsHexNumber_examples:
  "IsHexNumber ''abcd000000000000000000000000000000000002''"
  "IsHexNumber ''ffff000000000000000000000000000000000009''"
  by (simp_all add: IsHexNumber_def HexDigit_def)

lemma exampleDb_entries:
  "length exampleDb = 3"
  "indexEntry (exampleDb ! 0) = Some (0x1234000000000000000000000000000000000001,
      \<lparr>element_name = ''first'', element_claim = claim (mkClaim 0x1234000000000000000000000000000000000001 10 10 0)\<rparr>)"
  "indexEntry (exampleDb ! 1) = Some (0xabcd000000000000000000000000000000000002,
      \<lparr>element_name = ''second'', element_claim = claim (mkClaim 0xabcd000000000000000000000000000000000002 10 10 0)\<rparr>)"
  "indexEntry (exampleDb ! 2) = Some (0xabcd000000000000000000000000000000000003,
      \<lparr>element_name = ''third'', element_claim = claim (mkClaim 0xabcd000000000000000000000000000000000003 10 10 0)\<rparr>)"
  by (simp_all add: exampleDb_def mkEntry_def indexEntry_def)

lemma exampleDb_no_match_absent:
  "\<forall>j<length exampleDb. \<forall>cid' el'. indexEntry (exampleDb ! j) = Some (cid', el')
        \<longrightarrow> \<not> find_at_0 (GetHex cid') ''ffff000000000000000000000000000000000009''"
proof (intro allI impI)
  fix j cid' el'
  assume "j < length exampleDb" and h: "indexEntry (exampleDb ! j) = Some (cid', el')"
  then have "j = 0 \<or> j = 1 \<or> j = 2" using exampleDb_entries(1) by auto
  then have "cid' = 0x1234000000000000000000000000000000000001
           \<or> cid' = 0xabcd000000000000000000000000000000000002
           \<or> cid' = 0xabcd000000000000000000000000000000000003"
    using h exampleDb_entries by auto
  then show "\<not> find_at_0 (GetHex cid') ''ffff000000000000000000000000000000000009''"
    by (auto simp: GetHex_1 GetHex_2 GetHex_3 find_at_0_def)
qed

lemma exact_second:
  "getClaimById exampleDb 0xabcd000000000000000000000000000000000002
     = (Some (''second'', claim (mkClaim 0xabcd000000000000000000000000000000000002 10 10 0)),
        [Read_key 0xabcd000000000000000000000000000000000002])"
  by (simp add: getClaimById_def db_Read_def exampleDb_def mkEntry_def mkClaim_def)

lemma exact_absent:
  "getClaimById exampleDb 0xffff000000000000000000000000000000000009
     = (None, [Read_key 0xffff000000000000000000000000000000000009])"
  by (simp add: getClaimById_def db_Read_def exampleDb_def mkEntry_def)

theorem exact_lookup_then_scan_witness:
  "IsHexNumber ''abcd000000000000000000000000000000000002''
   \<and> length ''abcd000000000000000000000000000000000002'' = 40
   \<and> resolveClaimId exampleDb ''abcd000000000000000000000000000000000002''
       = (Some (''second'', claim (mkClaim 0xabcd000000000000000000000000000000000002 10 10 0)),
          [Read_key 0xabcd000000000000000000000000000000000002])
   \<and> IsHexNumber ''ffff000000000000000000000000000000000009''
   \<and> length ''ffff000000000000000000000000000000000009'' = 40
   \<and> resolveClaimId exampleDb ''ffff000000000000000000000000000000000009''
       = (None, [Read_key 0xffff000000000000000000000000000000000009,
                 Cursor_at 0, Cursor_at 1, Cursor_at 2])
   \<and> consistentIndex exampleDb
   \<and> fst (resolveClaimId exampleDb ''ffff000000000000000000000000000000000009'')
       = fst (getClaimById exampleDb (uint160S ''ffff000000000000000000000000000000000009''))"
proof -
  note A = exact_lookup_then_scan [of "''abcd000000000000000000000000000000000002''" exampleDb
             "bareExternals exampleDb" emptyCaches]
  note B = exact_lookup_then_scan [of "''ffff000000000000000000000000000000000009''" exampleDb
             "bareExternals exampleDb" emptyCaches]
  have a: "resolveClaimId exampleDb ''abcd000000000000000000000000000000000002''
       = (Some (''second'', claim (mkClaim 0xabcd000000000000000000000000000000000002 10 10 0)),
          [Read_key 0xabcd000000000000000000000000000000000002])"
    using A IsHexNumber_examples(1) by (simp add: uint160S_second exact_second)
  have b1: "resolveClaimId exampleDb ''ffff000000000000000000000000000000000009''
          = (fst (getClaimById_partial exampleDb ''ffff000000000000000000000000000000000009'' []),
             [Read_key 0xffff000000000000000000000000000000000009]
               @ snd (getClaimById_partial exampleDb ''ffff000000000000000000000000000000000009'' []))"
    and b2: "snd (getClaimById_partial exampleDb ''ffff000000000000000000000000000000000009'' [])
           = map Cursor_at [0..<length exampleDb]"
    using B IsHexNumber_examples(2) exampleDb_no_match_absent
    by (simp_all add: uint160S_absent exact_absent)
  have b3: "fst (getClaimById_partial exampleDb ''ffff000000000000000000000000000000000009'' []) = None"
    using partial_lookup_none [OF exampleDb_no_match_absent] by simp
  have b4: "fst (resolveClaimId exampleDb ''ffff000000000000000000000000000000000009'')
       = fst (getClaimById exampleDb (uint160S ''ffff000000000000000000000000000000000009''))"
    using B IsHexNumber_examples(2) consistent_exampleDb by simp
  show ?thesis
    using a b1 b2 b3 b4 IsHexNumber_examples consistent_exampleDb
    by (simp add: exampleDb_entries(1) upt_conv_Cons)
qed

text \<open>
  C4 as stated fails: for a well-formed identifier that is not in the index, the point
  read is followed by a visit of every entry of the index.
\<close>

theorem exact_lookup_never_scans_counterexample:
  "IsHexNumber ''ffff000000000000000000000000000000000009''
   \<and> length ''ffff000000000000000000000000000000000009'' = 40
   \<and> getclaimbyid (bareExternals exampleDb) emptyCaches
        (VSTR ''ffff000000000000000000000000000000000009'')
       = (Inr (VOBJ []),
          [Read_key 0xffff000000000000000000000000000000000009,
           Cursor_at 0, Cursor_at 1, Cursor_at 2])"
proof -
  have p: "ParseClaimtrieId (VSTR ''ffff000000000000000000000000000000000009'')
             = Inr ''ffff000000000000000000000000000000000009''"
    using IsHexNumber_examples(2) by (simp add: ParseClaimtrieId_def claimIdHexLength_def)
  have s: "getClaimById_partial exampleDb ''ffff000000000000000000000000000000000009'' []
             = (None, [Cursor_at 0, Cursor_at 1, Cursor_at 2])"
    using partial_lookup_none [OF exampleDb_no_match_absent]
    by (simp add: exampleDb_entries(1) upt_conv_Cons)
  have r: "resolveClaimId exampleDb ''ffff000000000000000000000000000000000009''
             = (None, [Read_key 0xffff000000000000000000000000000000000009,
                       Cursor_at 0, Cursor_at 1, Cursor_at 2])"
    by (simp add: resolveClaimId_def claimIdHexLength_def uint160S_absent exact_absent s)
  show ?thesis
    using p r IsHexNumber_examples(2) by (simp add: getclaimbyid_def bareExternals_def)
qed

lemma ParseClaimtrieId_Inr:
  "ParseClaimtrieId v = Inr s \<longleftrightarrow>
     v = VSTR s \<and> s \<noteq> [] \<and> list_all (\<lambda>c. 0 \<le> HexDigit c) s \<and> even (length s) \<and> length s \<le> 40"
  by (cases v) (auto simp: ParseClaimtrieId_def IsHexNumber_def claimIdHexLength_def)

text \<open>
  C5.  \<^verbatim>\<open>getclaimbyid\<close> rejects, with an error and an empty log of index accesses:
  a parameter that is not a string; a string with a character that is not a hexadecimal
  digit, an empty string and a string of odd length (``must be a hexadecimal string'');
  a longer string than 40 characters; a shorter string than 3 characters.  A string of
  hexadecimal digits of even length between 3 and 40 passes all three checks, and only
  then the index is read, first by the lookup.
\<close>

theorem identifier_validation_before_index:
  "((\<forall>s. v \<noteq> VSTR s) \<longrightarrow> getclaimbyid X cs v = (Inl must_be_a_hexadecimal_string, []))
   \<and> (\<not> list_all (\<lambda>c. 0 \<le> HexDigit c) s \<or> s = [] \<or> odd (length s)
        \<longrightarrow> getclaimbyid X cs (VSTR s) = (Inl must_be_a_hexadecimal_string, []))
   \<and> (list_all (\<lambda>c. 0 \<le> HexDigit c) s \<and> even (length s) \<and> length s > 40
        \<longrightarrow> getclaimbyid X cs (VSTR s) = (Inl must_be_max_20_character_hexadecimal_string, []))
   \<and> (list_all (\<lambda>c. 0 \<le> HexDigit c) s \<and> s \<noteq> [] \<and> even (length s) \<and> length s < 3
        \<longrightarrow> getclaimbyid X cs (VSTR s) = (Inl should_be_at_least_3_chars, []))
   \<and> (list_all (\<lambda>c. 0 \<le> HexDigit c) s \<and> even (length s) \<and> 3 \<le> length s \<and> length s \<le> 40
        \<longrightarrow> fst (getclaimbyid X cs (VSTR s)) \<noteq> Inl must_be_a_hexadecimal_string
          \<and> fst (getclaimbyid X cs (VSTR s)) \<noteq> Inl must_be_max_20_character_hexadecimal_string
          \<and> fst (getclaimbyid X cs (VSTR s)) \<noteq> Inl should_be_at_least_3_chars
          \<and> (\<exists>rest. snd (getclaimbyid X cs (VSTR s))
                      = snd (resolveClaimId (pclaimTrie_db X) s) @ rest))"
proof (intro conjI impI)
  assume "\<forall>s. v \<noteq> VSTR s"
  then show "getclaimbyid X cs v = (Inl must_be_a_hexadecimal_string, [])"
    by (cases v) (simp_all add: getclaimbyid_def ParseClaimtrieId_def)
next
  assume "\<not> list_all (\<lambda>c. 0 \<le> HexDigit c) s \<or> s = [] \<or> odd (length s)"
  then have "\<not> IsHexNumber s" by (auto simp: IsHexNumber_def)
  then show "getclaimbyid X cs (VSTR s) = (Inl must_be_a_hexadecimal_string, [])"
    by (simp add: getclaimbyid_def ParseClaimtrieId_def)
next
  assume a: "list_all (\<lambda>c. 0 \<le> HexDigit c) s \<and> even (length s) \<and> length s > 40"
  then have "IsHexNumber s" by (auto simp: IsHexNumber_def)
  then show "getclaimbyid X cs (VSTR s) = (Inl must_be_max_20_character_hexadecimal_string, [])"
    using a by (simp add: getclaimbyid_def ParseClaimtrieId_def claimIdHexLength_def)
next
  assume a: "list_all (\<lambda>c. 0 \<le> HexDigit c) s \<and> s \<noteq> [] \<and> even (length s) \<and> length s < 3"
  then have "ParseClaimtrieId (VSTR s) = Inr s" by (simp add: ParseClaimtrieId_Inr)
  then show "getclaimbyid X cs (VSTR s) = (Inl should_be_at_least_3_chars, [])"
    using a by (simp add: getclaimbyid_def)
next
  assume a: "list_all (\<lambda>c. 0 \<le> HexDigit c) s \<and> even (length s) \<and> 3 \<le> length s \<and> length s \<le> 40"
  then have ne: "s \<noteq> []" by auto
  have p: "ParseClaimtrieId (VSTR s) = Inr s" using a ne by (simp add: ParseClaimtrieId_Inr)
  have l: "3 \<le> length s" using a by simp
  note g = getclaimbyid_accepted [OF p l, of X cs]
  show "fst (getclaimbyid X cs (VSTR s)) \<noteq> Inl must_be_a_hexadecimal_string" using g by blast
  show "fst (getclaimbyid X cs (VSTR s)) \<noteq> Inl must_be_max_20_character_hexadecimal_string"
    using g by blast
  show "fst (getclaimbyid X cs (VSTR s)) \<noteq> Inl should_be_at_least_3_chars" using g by blast
  show "\<exists>rest. snd (getclaimbyid X cs (VSTR s)) = snd (resolveClaimId (pclaimTrie_db X) s) @ rest"
    using g by blast
qed

theorem identifier_validation_before_index_witness:
  "getclaimbyid (bareExternals exampleDb) emptyCaches (VNUM 7) = (Inl must_be_a_hexadecimal_string, [])
   \<and> getclaimbyid (bareExternals exampleDb) emptyCaches (VSTR ''abcg'')
       = (Inl must_be_a_hexadecimal_string, [])
   \<and> getclaimbyid (bareExternals exampleDb) emptyCaches (VSTR ''abcd0'')
       = (Inl must_be_a_hexadecimal_string, [])
   \<and> getclaimbyid (bareExternals exampleDb) emptyCaches
        (VSTR ''abcd00000000000000000000000000000000000002'')
       = (Inl must_be_max_20_character_hexadecimal_string, [])
   \<and> getclaimbyid (bareExternals exampleDb) emptyCaches (VSTR ''ab'')
       = (Inl should_be_at_least_3_chars, [])
   \<and> fst (getclaimbyid (bareExternals exampleDb) emptyCaches (VSTR ''abcd''))
       \<noteq> Inl must_be_a_hexadecimal_string
   \<and> (\<exists>rest. snd (getclaimbyid (bareExternals exampleDb) emptyCaches (VSTR ''abcd''))
               = [Cursor_at 0, Cursor_at 1] @ rest)"
proof -
  note T = identifier_validation_before_index [of _ "bareExternals exampleDb" emptyCaches]
  have a: "getclaimbyid (bareExternals exampleDb) emptyCaches (VNUM 7)
             = (Inl must_be_a_hexadecimal_string, [])"
    using T [of "VNUM 7" "[]"] by simp
  have b: "getclaimbyid (bareExternals exampleDb) emptyCaches (VSTR ''abcg'')
             = (Inl must_be_a_hexadecimal_string, [])"
    using T [of "VNUM 7" "''abcg''"] by (simp add: HexDigit_def)
  have c: "getclaimbyid (bareExternals exampleDb) emptyCaches (VSTR ''abcd0'')
             = (Inl must_be_a_hexadecimal_string, [])"
    using T [of "VNUM 7" "''abcd0''"] by (simp add: HexDigit_def)
  have d: "getclaimbyid (bareExternals exampleDb) emptyCaches
             (VSTR ''abcd00000000000000000000000000000000000002'')
             = (Inl must_be_max_20_character_hexadecimal_string, [])"
    using T [of "VNUM 7" "''abcd00000000000000000000000000000000000002''"]
    by (simp add: HexDigit_def)
  have e: "getclaimbyid (bareExternals exampleDb) emptyCaches (VSTR ''ab'')
             = (Inl should_be_at_least_3_chars, [])"
    using T [of "VNUM 7" "''ab''"] by (simp add: HexDigit_def)
  have f: "fst (getclaimbyid (bareExternals exampleDb) emptyCaches (VSTR ''abcd''))
             \<noteq> Inl must_be_a_hexadecimal_string
           \<and> (\<exists>rest. snd (getclaimbyid (bareExternals exampleDb) emptyCaches (VSTR ''abcd''))
                  = snd (resolveClaimId (pclaimTrie_db (bareExternals exampleDb)) ''abcd'') @ rest)"
    using T [of "VNUM 7" "''abcd''"] by (simp add: HexDigit_def)
  have g: "snd (resolveClaimId (pclaimTrie_db (bareExternals exampleDb)) ''abcd'')
             = [Cursor_at 0, Cursor_at 1]"
    by (simp add: bareExternals_def resolveClaimId_def claimIdHexLength_def
          getClaimById_partial_def exampleDb_def mkEntry_def visitEntry_def
          GetHex_1 GetHex_2 find_at_0_def)
  show ?thesis using a b c d e f g by simp
qed

section \<open>Properties of the selection by index\<close>

lemma beyond_size_int: "0 \<le> i \<Longrightarrow> i < 2 ^ 31 \<Longrightarrow> beyond_size i xs \<longleftrightarrow> length xs \<le> nat i"
  by (simp add: beyond_size_def)

lemma proofToJSON_object: "\<exists>kvs. proofToJSON prf = VOBJ kvs"
  by (simp add: proofToJSON_def Let_def)

lemma proofFor_not_array: "proofFor tc nm cmp \<noteq> Inr (VARR vs)"
  using proofToJSON_object [of "the (getProofForName tc nm cmp)"]
  by (auto simp: proofFor_def split: option.splits)

text \<open>
  C7, as the code has it.  Let the view of the query be available (no block hash, or a
  rewind that succeeded), and let the index \<open>i\<close>, a non-negative \<^verbatim>\<open>int\<close>, be at
  least the number of claims of the name.  Then \<^verbatim>\<open>getclaimbybid\<close> and
  \<^verbatim>\<open>getclaimbyseq\<close> return the empty object and \<^verbatim>\<open>getclaimproofbyseq\<close> returns
  the empty array; \<^verbatim>\<open>getclaimproofbybid\<close> returns the empty array when \<open>i\<close> is not
  0, and for \<open>i = 0\<close> (a name without claims) it hands the request to the proof
  builder with no predicate.
\<close>

theorem out_of_range_index_is_empty:
  "historicalView N bh cs0 = Inr cs \<and> 0 \<le> i \<and> i < 2 ^ 31 \<and>
   length (claimsNsupports (getClaimsForName (trieCache cs) nm)) \<le> nat i
   \<longrightarrow> getclaimbybid X N cs0 nm (Some i) bh = Inr (VOBJ [])
     \<and> getclaimbyseq X N cs0 nm (Some i) bh = Inr (VOBJ [])
     \<and> getclaimproofbyseq X N cs0 nm (Some i) bh = Inr (VARR [])
     \<and> (i \<noteq> 0 \<longrightarrow> getclaimproofbybid N cs0 nm (Some i) bh = Inr (VARR []))
     \<and> (i = 0 \<longrightarrow> getclaimproofbybid N cs0 nm (Some i) bh = proofFor (trieCache cs) nm None)"
proof (intro impI)
  assume a: "historicalView N bh cs0 = Inr cs \<and> 0 \<le> i \<and> i < 2 ^ 31 \<and>
   length (claimsNsupports (getClaimsForName (trieCache cs) nm)) \<le> nat i"
  then have b: "beyond_size i (claimsNsupports (getClaimsForName (trieCache cs) nm))"
    by (simp add: beyond_size_int)
  have 1: "getclaimbybid X N cs0 nm (Some i) bh = Inr (VOBJ [])"
    using a b by (simp add: getclaimbybid_def Let_def)
  have 2: "getclaimbyseq X N cs0 nm (Some i) bh = Inr (VOBJ [])"
    using a b by (simp add: getclaimbyseq_def Let_def)
  have 3: "getclaimproofbyseq X N cs0 nm (Some i) bh = Inr (VARR [])"
    using a b by (simp add: getclaimproofbyseq_def Let_def)
  have 4: "i \<noteq> 0 \<longrightarrow> getclaimproofbybid N cs0 nm (Some i) bh = Inr (VARR [])"
    using a b by (simp add: getclaimproofbybid_def Let_def)
  have 5: "i = 0 \<longrightarrow> getclaimproofbybid N cs0 nm (Some i) bh = proofFor (trieCache cs) nm None"
    using a by (simp add: getclaimproofbybid_def Let_def)
  from 1 2 3 4 5 show "getclaimbybid X N cs0 nm (Some i) bh = Inr (VOBJ [])
     \<and> getclaimbyseq X N cs0 nm (Some i) bh = Inr (VOBJ [])
     \<and> getclaimproofbyseq X N cs0 nm (Some i) bh = Inr (VARR [])
     \<and> (i \<noteq> 0 \<longrightarrow> getclaimproofbybid N cs0 nm (Some i) bh = Inr (VARR []))
     \<and> (i = 0 \<longrightarrow> getclaimproofbybid N cs0 nm (Some i) bh = proofFor (trieCache cs) nm None)"
    by blast
qed

theorem out_of_range_index_is_empty_witness:
  "historicalView (quietNode 0) None threeCaches = Inr threeCaches
   \<and> length (claimsNsupports (getClaimsForName (trieCache threeCaches) ''name'')) = 3
   \<and> getclaimbybid (bareExternals []) (quietNode 0) threeCaches ''name'' (Some 5) None = Inr (VOBJ [])
   \<and> getclaimbyseq (bareExternals []) (quietNode 0) threeCaches ''name'' (Some 5) None = Inr (VOBJ [])
   \<and> getclaimproofbyseq (bareExternals []) (quietNode 0) threeCaches ''name'' (Some 5) None
         = Inr (VARR [])
   \<and> getclaimproofbybid (quietNode 0) threeCaches ''name'' (Some 5) None = Inr (VARR [])
   \<and> getclaimproofbybid (quietNode 0) provingCaches ''name'' (Some 0) None
       = proofFor (trieCache provingCaches) ''name'' None"
proof -
  have h: "historicalView (quietNode 0) None threeCaches = Inr threeCaches"
    "historicalView (quietNode 0) None provingCaches = Inr provingCaches"
    by (simp_all add: historicalView_def)
  have l: "length (claimsNsupports (getClaimsForName (trieCache threeCaches) ''name'')) = 3"
    "length (claimsNsupports (getClaimsForName (trieCache provingCaches) ''name'')) = 0"
    by (simp_all add: threeCaches_def threeClaims_def provingCaches_def emptyTrie_def)
  note A = out_of_range_index_is_empty [of "quietNode 0" None threeCaches threeCaches 5 "''name''"
             "bareExternals []"]
  note B = out_of_range_index_is_empty [of "quietNode 0" None provingCaches provingCaches 0 "''name''"
             "bareExternals []"]
  have a: "getclaimbybid (bareExternals []) (quietNode 0) threeCaches ''name'' (Some 5) None = Inr (VOBJ [])
     \<and> getclaimbyseq (bareExternals []) (quietNode 0) threeCaches ''name'' (Some 5) None = Inr (VOBJ [])
     \<and> getclaimproofbyseq (bareExternals []) (quietNode 0) threeCaches ''name'' (Some 5) None
         = Inr (VARR [])
     \<and> getclaimproofbybid (quietNode 0) threeCaches ''name'' (Some 5) None = Inr (VARR [])"
    using A h(1) l(1) by simp
  have b: "getclaimproofbybid (quietNode 0) provingCaches ''name'' (Some 0) None
       = proofFor (trieCache provingCaches) ''name'' None"
    using B h(2) l(2) by simp
  from h(1) l(1) a b show ?thesis by blast
qed

text \<open>
  C7 as stated fails for \<^verbatim>\<open>getclaimproofbybid\<close> at bid 0 on a name without claims:
  the index is out of range, and the answer is the proof that the builder returns, or
  the error ``Failed to generate proof'' when the builder refuses.
\<close>

theorem out_of_range_bid_zero_counterexample:
  "length (claimsNsupports (getClaimsForName (trieCache provingCaches) ''name'')) \<le> nat 0
   \<and> getclaimproofbybid (quietNode 0) provingCaches ''name'' (Some 0) None
       = Inr (VOBJ [(T_NODES, VARR [VOBJ [(T_CHILDREN, VARR [])]])])
   \<and> length (claimsNsupports (getClaimsForName (trieCache emptyCaches) ''name'')) \<le> nat 0
   \<and> getclaimproofbybid (quietNode 0) emptyCaches ''name'' (Some 0) None
       = Inl Failed_to_generate_proof"
  by (simp add: getclaimproofbybid_def historicalView_def proofFor_def provingCaches_def
        emptyCaches_def emptyTrie_def rootProof_def proofToJSON_def nodeToJSON_def Let_def)

text \<open>
  C10.  With bid 0, given or by default, \<^verbatim>\<open>getclaimproofbybid\<close> is the request
  \<^verbatim>\<open>getProofForName\<close> without predicate on the view of the query, whose proof is
  rendered by \<^verbatim>\<open>proofToJSON\<close> and whose refusal is the error ``Failed to generate
  proof''.  The claim list of the name does not enter: replacing \<open>getClaimsForName\<close>
  by any other function changes nothing, and the empty array of the bounds check is
  never the answer, whatever the number of claims.
\<close>

theorem proof_by_bid_zero_skips_bounds_check:
  "getclaimproofbybid N cs0 nm (Some 0) bh
     = (case historicalView N bh cs0 of
          Inl e \<Rightarrow> Inl e
        | Inr cs \<Rightarrow> (case getProofForName (trieCache cs) nm None of
                       None \<Rightarrow> Inl Failed_to_generate_proof
                     | Some prf \<Rightarrow> Inr (proofToJSON prf)))
   \<and> getclaimproofbybid N cs0 nm None bh = getclaimproofbybid N cs0 nm (Some 0) bh
   \<and> getclaimproofbybid N cs0 nm (Some 0) bh \<noteq> Inr (VARR [])
   \<and> getclaimproofbybid N (cs0\<lparr>trieCache := (trieCache cs0)\<lparr>getClaimsForName := g\<rparr>\<rparr>) nm (Some 0) None
       = (case getProofForName (trieCache cs0) nm None of
            None \<Rightarrow> Inl Failed_to_generate_proof
          | Some prf \<Rightarrow> Inr (proofToJSON prf))"
proof -
  have 1: "getclaimproofbybid N cs0 nm (Some 0) bh
     = (case historicalView N bh cs0 of
          Inl e \<Rightarrow> Inl e
        | Inr cs \<Rightarrow> (case getProofForName (trieCache cs) nm None of
                       None \<Rightarrow> Inl Failed_to_generate_proof
                     | Some prf \<Rightarrow> Inr (proofToJSON prf)))"
    by (simp add: getclaimproofbybid_def proofFor_def split: sum.splits)
  have 2: "getclaimproofbybid N cs0 nm None bh = getclaimproofbybid N cs0 nm (Some 0) bh"
    by (simp add: getclaimproofbybid_def)
  have 3: "getclaimproofbybid N cs0 nm (Some 0) bh \<noteq> Inr (VARR [])"
  proof -
    have "proofToJSON pf \<noteq> VARR []" for pf
      using proofToJSON_object [of pf] by auto
    then show ?thesis unfolding 1 by (simp split: sum.splits option.splits)
  qed
  have 4: "getclaimproofbybid N (cs0\<lparr>trieCache := (trieCache cs0)\<lparr>getClaimsForName := g\<rparr>\<rparr>) nm (Some 0) None
       = (case getProofForName (trieCache cs0) nm None of
            None \<Rightarrow> Inl Failed_to_generate_proof
          | Some prf \<Rightarrow> Inr (proofToJSON prf))"
    by (simp add: getclaimproofbybid_def historicalView_def proofFor_def)
  from 1 2 3 4 show ?thesis by blast
qed

text \<open>
  On a name with three claims whose proof builder answers only the request without
  predicate, bid 0 obtains the proof and bid 1, which asks for the claim at that
  position, is refused; on a name without claims, bid 0 obtains the proof when the
  builder returns one and the error when it refuses.
\<close>

theorem proof_by_bid_zero_skips_bounds_check_witness:
  "getclaimproofbybid (quietNode 0) defaultOnlyCaches ''name'' (Some 0) None
     = Inr (VOBJ [(T_NODES, VARR [VOBJ [(T_CHILDREN, VARR [])]])])
   \<and> getclaimproofbybid (quietNode 0) defaultOnlyCaches ''name'' None None
     = Inr (VOBJ [(T_NODES, VARR [VOBJ [(T_CHILDREN, VARR [])]])])
   \<and> getclaimproofbybid (quietNode 0) defaultOnlyCaches ''name'' (Some 1) None
     = Inl Failed_to_generate_proof
   \<and> claimsNsupports (getClaimsForName (trieCache provingCaches) ''name'') = []
   \<and> getclaimproofbybid (quietNode 0) provingCaches ''name'' (Some 0) None
     = Inr (VOBJ [(T_NODES, VARR [VOBJ [(T_CHILDREN, VARR [])]])])
   \<and> getclaimproofbybid (quietNode 0) emptyCaches ''name'' (Some 0) None
     = Inl Failed_to_generate_proof"
proof -
  have h: "historicalView (quietNode 0) None cs = Inr cs" for cs :: caches
    by (simp add: historicalView_def)
  have p: "proofToJSON rootProof = VOBJ [(T_NODES, VARR [VOBJ [(T_CHILDREN, VARR [])]])]"
    by (simp add: proofToJSON_def rootProof_def nodeToJSON_def Let_def)
  have a: "getclaimproofbybid (quietNode 0) defaultOnlyCaches ''name'' (Some 0) None
     = Inr (VOBJ [(T_NODES, VARR [VOBJ [(T_CHILDREN, VARR [])]])])"
    "getclaimproofbybid (quietNode 0) defaultOnlyCaches ''name'' None None
     = Inr (VOBJ [(T_NODES, VARR [VOBJ [(T_CHILDREN, VARR [])]])])"
    using proof_by_bid_zero_skips_bounds_check [of "quietNode 0" defaultOnlyCaches "''name''" None]
    by (simp_all add: h p defaultOnlyCaches_def)
  have b: "getclaimproofbybid (quietNode 0) provingCaches ''name'' (Some 0) None
     = Inr (VOBJ [(T_NODES, VARR [VOBJ [(T_CHILDREN, VARR [])]])])"
    using proof_by_bid_zero_skips_bounds_check [of "quietNode 0" provingCaches "''name''" None]
    by (simp add: h p provingCaches_def emptyTrie_def)
  have c: "getclaimproofbybid (quietNode 0) emptyCaches ''name'' (Some 0) None
     = Inl Failed_to_generate_proof"
    using proof_by_bid_zero_skips_bounds_check [of "quietNode 0" emptyCaches "''name''" None]
    by (simp add: h emptyCaches_def emptyTrie_def)
  have d: "getclaimproofbybid (quietNode 0) defaultOnlyCaches ''name'' (Some 1) None
     = Inl Failed_to_generate_proof"
    by (simp add: getclaimproofbybid_def h proofFor_def defaultOnlyCaches_def threeClaims_def
          beyond_size_def)
  have e: "claimsNsupports (getClaimsForName (trieCache provingCaches) ''name'') = []"
    by (simp add: provingCaches_def emptyTrie_def)
  from a b c d e show ?thesis by blast
qed

section \<open>Properties of the bid order\<close>

lemma find_if_le: "find_if P xs \<le> length xs"
  by (induction xs) auto

lemma find_if_nth: "find_if P xs < length xs \<Longrightarrow> P (xs ! find_if P xs)"
  by (induction xs) auto

lemma indexOf_Some:
  "indexOf xs cid = Some k \<Longrightarrow> k < length xs \<and> claimId (claim (xs ! k)) = cid"
  using find_if_le [of "\<lambda>c. claimId (claim c) = cid" xs]
        find_if_nth [of "\<lambda>c. claimId (claim c) = cid" xs]
  by (auto simp: indexOf_def Let_def split: if_splits)

lemma indexOf_self:
  "indexOf xs cid = Some k \<Longrightarrow> indexOf xs (claimId (claim (xs ! k))) = Some k"
  using indexOf_Some [of xs cid k] by simp

lemma indexOf_member:
  "c \<in> set xs \<Longrightarrow> \<exists>k<length xs. indexOf xs (claimId (claim c)) = Some k"
  using indexOf_present [of "claimId (claim c)" xs] by auto

lemma indexOf_seqSort_defined:
  "c \<in> set xs \<Longrightarrow> \<exists>s<length xs. indexOf (seqSort ties xs) (claimId (claim c)) = Some s"
  using indexOf_member [of c "seqSort ties xs"] by (simp add: set_seqSort length_seqSort)

lemma find_claim_Some:
  "find_claim csToName cid = Some c \<Longrightarrow> c \<in> set (claimsNsupports csToName) \<and> claimId (claim c) = cid"
  by (auto simp: find_claim_def find_Some_iff)

lemma find_claim_partial_Some:
  "find_claim_partial csToName partialId = Some c \<Longrightarrow> c \<in> set (claimsNsupports csToName)"
  by (auto simp: find_claim_partial_def find_Some_iff)

text \<open>The entries of the rendered objects that identify the claim and its ranks.\<close>

lemma pushCoin_object: "\<exists>kvs'. pushCoin X coin (VOBJ kvs) = VOBJ kvs'"
  by (simp add: pushCoin_def Let_def split: option.splits)

lemma claimToJSON_claimid:
  "\<exists>kvs. claimToJSON X coins cl = VOBJ kvs
         \<and> map_of kvs T_CLAIMID = Some (VSTR (GetHex (claimId cl)))"
proof -
  obtain k0 where k0:
    "(case fst (getClaimById (pclaimTrie_db X) (claimId cl)) of
        Some found \<Rightarrow> pushKV (VOBJ []) T_NAME (VSTR (escapeNonUtf8 X (fst found)))
      | None \<Rightarrow> VOBJ []) = VOBJ k0"
    by (cases "fst (getClaimById (pclaimTrie_db X) (claimId cl))") auto
  from pushCoin_object [of X "AccessCoin coins (outPoint cl)" k0]
  obtain k1 where k1: "pushCoin X (AccessCoin coins (outPoint cl)) (VOBJ k0) = VOBJ k1"
    by blast
  show ?thesis
    by (simp add: claimToJSON_def Let_def k0 k1 map_of_putKV)
qed

lemma claimAndSupportsToJSON_claimid:
  "\<exists>kvs. claimAndSupportsToJSON X coins c = VOBJ kvs
         \<and> map_of kvs T_CLAIMID = Some (VSTR (GetHex (claimId (claim c))))"
proof -
  from claimToJSON_claimid [of X coins "claim c"]
  obtain kvs where k: "claimToJSON X coins (claim c) = VOBJ kvs"
    "map_of kvs T_CLAIMID = Some (VSTR (GetHex (claimId (claim c))))"
    by blast
  show ?thesis
    by (simp add: claimAndSupportsToJSON_def Let_def k map_of_putKV)
qed

lemma rankedToJSON_entries:
  "find_value (rankedToJSON X coins csToName c bid seq) T_BID = Some (VNUM bid)"
  "find_value (rankedToJSON X coins csToName c bid seq) T_SEQUENCE = Some (VNUM seq)"
  "find_value (rankedToJSON X coins csToName c bid seq) T_CLAIMID
     = Some (VSTR (GetHex (claimId (claim c))))"
proof -
  from claimAndSupportsToJSON_claimid [of X coins c]
  obtain kvs where k: "claimAndSupportsToJSON X coins c = VOBJ kvs"
    "map_of kvs T_CLAIMID = Some (VSTR (GetHex (claimId (claim c))))"
    by blast
  show "find_value (rankedToJSON X coins csToName c bid seq) T_BID = Some (VNUM bid)"
    "find_value (rankedToJSON X coins csToName c bid seq) T_SEQUENCE = Some (VNUM seq)"
    "find_value (rankedToJSON X coins csToName c bid seq) T_CLAIMID
       = Some (VSTR (GetHex (claimId (claim c))))"
    by (simp_all add: rankedToJSON_def Let_def k map_of_putKV)
qed

lemma listedToJSON_entries:
  "find_value (pushKV (pushKV (claimAndSupportsToJSON X coins c) T_BID (VNUM bid))
                 T_SEQUENCE (VNUM seq)) T_BID = Some (VNUM bid)"
  "find_value (pushKV (pushKV (claimAndSupportsToJSON X coins c) T_BID (VNUM bid))
                 T_SEQUENCE (VNUM seq)) T_CLAIMID = Some (VSTR (GetHex (claimId (claim c))))"
proof -
  from claimAndSupportsToJSON_claimid [of X coins c]
  obtain kvs where k: "claimAndSupportsToJSON X coins c = VOBJ kvs"
    "map_of kvs T_CLAIMID = Some (VSTR (GetHex (claimId (claim c))))"
    by blast
  show "find_value (pushKV (pushKV (claimAndSupportsToJSON X coins c) T_BID (VNUM bid))
                 T_SEQUENCE (VNUM seq)) T_BID = Some (VNUM bid)"
    "find_value (pushKV (pushKV (claimAndSupportsToJSON X coins c) T_BID (VNUM bid))
                 T_SEQUENCE (VNUM seq)) T_CLAIMID = Some (VSTR (GetHex (claimId (claim c))))"
    by (simp_all add: k map_of_putKV)
qed

lemma claimObjsLoop_result:
  assumes "\<forall>c\<in>set rest. \<exists>s<n. indexOf so (claimId (claim c)) = Some s"
  shows "\<exists>objs. claimObjsLoop X coins so i rest (VARR acc) = Inr (VARR (acc @ objs))
           \<and> length objs = length rest
           \<and> (\<forall>j<length rest. \<exists>s<n.
                  objs ! j = pushKV (pushKV (claimAndSupportsToJSON X coins (rest ! j))
                                       T_BID (VNUM (int (i + j))))
                               T_SEQUENCE (VNUM (int s)))"
  using assms
proof (induction rest arbitrary: i acc)
  case Nil
  then show ?case by simp
next
  case (Cons c rest)
  from Cons.prems obtain s where s: "indexOf so (claimId (claim c)) = Some s" "s < n" by auto
  let ?o = "pushKV (pushKV (claimAndSupportsToJSON X coins c) T_BID (VNUM (int i)))
              T_SEQUENCE (VNUM (int s))"
  from Cons.IH [of "Suc i" "acc @ [?o]"] Cons.prems
  obtain objs where o:
    "claimObjsLoop X coins so (Suc i) rest (VARR (acc @ [?o])) = Inr (VARR ((acc @ [?o]) @ objs))"
    "length objs = length rest"
    "\<forall>j<length rest. \<exists>s<n.
                  objs ! j = pushKV (pushKV (claimAndSupportsToJSON X coins (rest ! j))
                                       T_BID (VNUM (int (Suc i + j))))
                               T_SEQUENCE (VNUM (int s))"
    by auto
  have "\<forall>j<length (c # rest). \<exists>s<n.
                  (?o # objs) ! j = pushKV (pushKV (claimAndSupportsToJSON X coins ((c # rest) ! j))
                                       T_BID (VNUM (int (i + j))))
                               T_SEQUENCE (VNUM (int s))"
  proof (intro allI impI)
    fix j assume "j < length (c # rest)"
    then show "\<exists>s<n.
                  (?o # objs) ! j = pushKV (pushKV (claimAndSupportsToJSON X coins ((c # rest) ! j))
                                       T_BID (VNUM (int (i + j))))
                               T_SEQUENCE (VNUM (int s))"
      using s o(3) by (cases j) auto
  qed
  then show ?case
    using s o(1,2) by (intro exI [of _ "?o # objs"]) simp
qed

text \<open>
  The block in which \<^verbatim>\<open>getvalueforname\<close> and \<^verbatim>\<open>getclaimbyid\<close> rank the claim
  they selected: for a claim of the list no assertion fails, and the bid is the first
  position of the list that has the identifier.
\<close>

lemma ranks_of_selected:
  assumes "c \<in> set claims" and "claimId (claim c) = cid"
  shows "\<exists>seq k. (if length claims > 1
                   then (case indexOf (seqSort ties claims) cid of
                           None \<Rightarrow> None
                         | Some seq \<Rightarrow> (case indexOf claims cid of
                                          None \<Rightarrow> None
                                        | Some bid \<Rightarrow> Some (seq, bid)))
                   else Some (0, 0)) = Some (seq, k)
                \<and> indexOf claims cid = Some k"
proof (cases "length claims > 1")
  case True
  from indexOf_seqSort_defined [OF assms(1), of ties] assms(2)
  obtain s where s: "indexOf (seqSort ties claims) cid = Some s" by auto
  from indexOf_member [OF assms(1)] assms(2)
  obtain k where k: "indexOf claims cid = Some k" by auto
  show ?thesis using True s k by simp
next
  case False
  with assms(1) have "claims = [c]"
    by (cases claims) auto
  then show ?thesis using assms(2) by (simp add: indexOf_def)
qed

lemma find_claim_present:
  "cid \<in> (\<lambda>c. claimId (claim c)) ` set (claimsNsupports csToName)
   \<Longrightarrow> \<exists>c. find_claim csToName cid = Some c"
  by (cases "find_claim csToName cid") (auto simp: find_claim_def find_None_iff)

lemma getclaimsforname_bid:
  assumes "historicalView N bh cs0 = Inr cs"
  shows "\<exists>r objs. getclaimsforname X N cs0 nm bh = Inr r
           \<and> find_value r T_CLAIMS = Some (VARR objs)
           \<and> length objs = length (claimsNsupports (getClaimsForName (trieCache cs) nm))
           \<and> (\<forall>j<length (claimsNsupports (getClaimsForName (trieCache cs) nm)).
                \<exists>s<length (claimsNsupports (getClaimsForName (trieCache cs) nm)).
                  objs ! j = pushKV (pushKV (claimAndSupportsToJSON X (coinsCache cs)
                                               (claimsNsupports (getClaimsForName (trieCache cs) nm) ! j))
                                       T_BID (VNUM (int j)))
                               T_SEQUENCE (VNUM (int s)))"
proof -
  let ?cl = "claimsNsupports (getClaimsForName (trieCache cs) nm)"
  have d: "\<forall>c\<in>set ?cl. \<exists>s<length ?cl.
             indexOf (seqSort (sort_ties X) ?cl) (claimId (claim c)) = Some s"
    using indexOf_seqSort_defined by blast
  from claimObjsLoop_result [OF d, of X "coinsCache cs" 0 "[]"]
  obtain objs where o:
    "claimObjsLoop X (coinsCache cs) (seqSort (sort_ties X) ?cl) 0 ?cl (VARR [])
       = Inr (VARR objs)"
    "length objs = length ?cl"
    "\<forall>j<length ?cl. \<exists>s<length ?cl.
        objs ! j = pushKV (pushKV (claimAndSupportsToJSON X (coinsCache cs) (?cl ! j))
                             T_BID (VNUM (int j)))
                     T_SEQUENCE (VNUM (int s))"
    by auto
  have "\<exists>r. getclaimsforname X N cs0 nm bh = Inr r \<and> find_value r T_CLAIMS = Some (VARR objs)"
    using assms o(1) by (simp add: getclaimsforname_def Let_def)
  then show ?thesis using o(2,3) by blast
qed

lemma getclaimbybid_bid:
  assumes "historicalView N bh cs0 = Inr cs"
    and "0 \<le> b" and "b < 2 ^ 31"
    and "b < int (length (claimsNsupports (getClaimsForName (trieCache cs) nm)))"
  shows "\<exists>s<length (claimsNsupports (getClaimsForName (trieCache cs) nm)).
           getclaimbybid X N cs0 nm (Some b) bh
           = Inr (rankedToJSON X (coinsCache cs) (getClaimsForName (trieCache cs) nm)
                    (claimsNsupports (getClaimsForName (trieCache cs) nm) ! nat b) b (int s))"
proof -
  let ?cl = "claimsNsupports (getClaimsForName (trieCache cs) nm)"
  have lt: "nat b < length ?cl" using assms(2,4) by auto
  have nb: "\<not> beyond_size b ?cl" using assms(2,3) lt by (simp add: beyond_size_int)
  have "?cl ! nat b \<in> set ?cl" using lt by simp
  from indexOf_seqSort_defined [OF this, of "sort_ties X"]
  obtain s where s: "s < length ?cl"
    "indexOf (seqSort (sort_ties X) ?cl) (claimId (claim (?cl ! nat b))) = Some s"
    by blast
  show ?thesis
  proof (cases "length ?cl > 1")
    case True
    then have "getclaimbybid X N cs0 nm (Some b) bh
                 = Inr (rankedToJSON X (coinsCache cs) (getClaimsForName (trieCache cs) nm)
                          (?cl ! nat b) b (int s))"
      using assms(1,2) nb s(2) by (simp add: getclaimbybid_def Let_def)
    then show ?thesis using s(1) by blast
  next
    case False
    then have "getclaimbybid X N cs0 nm (Some b) bh
                 = Inr (rankedToJSON X (coinsCache cs) (getClaimsForName (trieCache cs) nm)
                          (?cl ! nat b) b (int 0))"
      using assms(1,2) nb by (simp add: getclaimbybid_def Let_def)
    moreover have "0 < length ?cl" using lt by (cases ?cl) auto
    ultimately show ?thesis by blast
  qed
qed

lemma getclaimbyseq_bid:
  assumes "historicalView N bh cs0 = Inr cs"
    and "0 \<le> q" and "q < 2 ^ 31"
    and "q < int (length (claimsNsupports (getClaimsForName (trieCache cs) nm)))"
  shows "\<exists>c k. c \<in> set (claimsNsupports (getClaimsForName (trieCache cs) nm))
           \<and> indexOf (claimsNsupports (getClaimsForName (trieCache cs) nm)) (claimId (claim c)) = Some k
           \<and> getclaimbyseq X N cs0 nm (Some q) bh
               = Inr (rankedToJSON X (coinsCache cs) (getClaimsForName (trieCache cs) nm)
                        c (int k) q)"
proof -
  let ?cl = "claimsNsupports (getClaimsForName (trieCache cs) nm)"
  have lt: "nat q < length ?cl" using assms(2,4) by auto
  have nb: "\<not> beyond_size q ?cl" using assms(2,3) lt by (simp add: beyond_size_int)
  show ?thesis
  proof (cases "length ?cl = 1")
    case True
    then obtain c where c: "?cl = [c]" by (cases ?cl) auto
    have "getclaimbyseq X N cs0 nm (Some q) bh
            = Inr (rankedToJSON X (coinsCache cs) (getClaimsForName (trieCache cs) nm)
                     c (int 0) q)"
      using assms(1,2) nb c by (simp add: getclaimbyseq_def Let_def)
    moreover have "c \<in> set ?cl" using c by simp
    moreover have "indexOf ?cl (claimId (claim c)) = Some 0"
      using c by (simp add: indexOf_def)
    ultimately show ?thesis by blast
  next
    case False
    let ?c = "seqSort (sort_ties X) ?cl ! nat q"
    have "?c \<in> set (seqSort (sort_ties X) ?cl)" using lt by (simp add: length_seqSort)
    then have m: "?c \<in> set ?cl" by (simp add: set_seqSort)
    from indexOf_member [OF m]
    obtain k where k: "indexOf ?cl (claimId (claim ?c)) = Some k" by blast
    have "getclaimbyseq X N cs0 nm (Some q) bh
            = Inr (rankedToJSON X (coinsCache cs) (getClaimsForName (trieCache cs) nm)
                     ?c (int k) q)"
      using assms(1,2) nb False k by (simp add: getclaimbyseq_def Let_def)
    then show ?thesis using m k by blast
  qed
qed

lemma getvalueforname_bid:
  assumes "historicalView N bh cs0 = Inr cs"
  shows "(\<exists>e. getvalueforname X N cs0 nm bh p = Inl e \<and> e \<noteq> assertion_failed)
         \<or> getvalueforname X N cs0 nm bh p = Inr (VOBJ [])
         \<or> (\<exists>c seq k. c \<in> set (claimsNsupports (getClaimsForName (trieCache cs) nm))
               \<and> indexOf (claimsNsupports (getClaimsForName (trieCache cs) nm)) (claimId (claim c)) = Some k
               \<and> getvalueforname X N cs0 nm bh p
                   = Inr (rankedToJSON X (coinsCache cs) (getClaimsForName (trieCache cs) nm)
                            c (int k) (int seq)))"
proof (cases "case p of None \<Rightarrow> Inr [] | Some v \<Rightarrow> ParseClaimtrieId v")
  case (Inl e)
  then have "e \<noteq> assertion_failed"
    by (auto simp: ParseClaimtrieId_def split: option.splits UniValue.splits if_splits)
  then show ?thesis using assms Inl by (simp add: getvalueforname_def)
next
  case (Inr cidText)
  let ?csn = "getClaimsForName (trieCache cs) nm"
  let ?cl = "claimsNsupports ?csn"
  let ?sel = "if length cidText = claimIdHexLength then find_claim ?csn (uint160S cidText)
              else if cidText \<noteq> [] then find_claim_partial ?csn cidText
              else Some (?cl ! 0)"
  show ?thesis
  proof (cases "?cl = []")
    case True
    then show ?thesis using assms Inr by (simp add: getvalueforname_def Let_def)
  next
    case False
    show ?thesis
    proof (cases ?sel)
      case None
      have "getvalueforname X N cs0 nm bh p = Inr (VOBJ [])"
        unfolding getvalueforname_def Let_def using assms Inr False None
        by (simp del: if_split cong: if_cong)
      then show ?thesis by blast
    next
      case (Some c)
      have m: "c \<in> set ?cl"
        using Some False find_claim_Some [of ?csn "uint160S cidText" c]
          find_claim_partial_Some [of ?csn cidText c]
        by (auto split: if_splits)
      from ranks_of_selected [OF m refl, of "sort_ties X"]
      obtain seq k where r:
        "(if length ?cl > 1
          then (case indexOf (seqSort (sort_ties X) ?cl) (claimId (claim c)) of
                  None \<Rightarrow> None
                | Some seq \<Rightarrow> (case indexOf ?cl (claimId (claim c)) of
                                 None \<Rightarrow> None
                               | Some bid \<Rightarrow> Some (seq, bid)))
          else Some (0, 0)) = Some (seq, k)"
        "indexOf ?cl (claimId (claim c)) = Some k"
        by blast
      show ?thesis
      proof (cases "IsNull c")
        case True
        have "getvalueforname X N cs0 nm bh p = Inr (VOBJ [])"
          unfolding getvalueforname_def Let_def using assms Inr False Some True
          by (simp del: if_split cong: if_cong)
        then show ?thesis by blast
      next
        case nn: False
        have "getvalueforname X N cs0 nm bh p
                = Inr (rankedToJSON X (coinsCache cs) ?csn c (int k) (int seq))"
          unfolding getvalueforname_def Let_def using assms Inr False Some nn r(1)
          by (simp del: if_split cong: if_cong)
        then show ?thesis using m r(2) by blast
      qed
    qed
  qed
qed

lemma getvalueforname_default:
  assumes "historicalView N bh cs0 = Inr cs"
    and "claimsNsupports (getClaimsForName (trieCache cs) nm) \<noteq> []"
    and "\<not> IsNull (claimsNsupports (getClaimsForName (trieCache cs) nm) ! 0)"
  shows "\<exists>seq. getvalueforname X N cs0 nm bh None
           = Inr (rankedToJSON X (coinsCache cs) (getClaimsForName (trieCache cs) nm)
                    (claimsNsupports (getClaimsForName (trieCache cs) nm) ! 0) 0 (int seq))"
proof -
  let ?csn = "getClaimsForName (trieCache cs) nm"
  let ?cl = "claimsNsupports ?csn"
  let ?c = "?cl ! 0"
  have m: "?c \<in> set ?cl" using assms(2) by simp
  from ranks_of_selected [OF m refl, of "sort_ties X"]
  obtain seq k where r:
    "(if length ?cl > 1
      then (case indexOf (seqSort (sort_ties X) ?cl) (claimId (claim ?c)) of
              None \<Rightarrow> None
            | Some seq \<Rightarrow> (case indexOf ?cl (claimId (claim ?c)) of
                             None \<Rightarrow> None
                           | Some bid \<Rightarrow> Some (seq, bid)))
      else Some (0, 0)) = Some (seq, k)"
    "indexOf ?cl (claimId (claim ?c)) = Some k"
    by blast
  have "indexOf ?cl (claimId (claim ?c)) = Some 0"
    using assms(2) by (cases ?cl) (auto simp: indexOf_def)
  with r(2) have k: "k = 0" by simp
  have "getvalueforname X N cs0 nm bh None
          = Inr (rankedToJSON X (coinsCache cs) ?csn ?c (int k) (int seq))"
    unfolding getvalueforname_def Let_def using assms r(1)
    by (simp add: claimIdHexLength_def del: if_split cong: if_cong)
  then show ?thesis using k by auto
qed

lemma getvalueforname_selected:
  assumes "historicalView N bh cs0 = Inr cs"
    and "ParseClaimtrieId v = Inr cidText" and "cidText \<noteq> []"
    and "(if length cidText = claimIdHexLength
          then find_claim (getClaimsForName (trieCache cs) nm) (uint160S cidText)
          else find_claim_partial (getClaimsForName (trieCache cs) nm) cidText) = Some c"
    and "\<not> IsNull c"
  shows "\<exists>seq k. indexOf (claimsNsupports (getClaimsForName (trieCache cs) nm)) (claimId (claim c)) = Some k
           \<and> getvalueforname X N cs0 nm bh (Some v)
               = Inr (rankedToJSON X (coinsCache cs) (getClaimsForName (trieCache cs) nm)
                        c (int k) (int seq))"
proof -
  let ?csn = "getClaimsForName (trieCache cs) nm"
  let ?cl = "claimsNsupports ?csn"
  have m: "c \<in> set ?cl"
    using assms(4) find_claim_Some [of ?csn "uint160S cidText" c]
      find_claim_partial_Some [of ?csn cidText c]
    by (auto split: if_splits)
  then have ne: "?cl \<noteq> []" by auto
  have sel: "(if length cidText = claimIdHexLength then find_claim ?csn (uint160S cidText)
              else if cidText \<noteq> [] then find_claim_partial ?csn cidText
              else Some (?cl ! 0)) = Some c"
    using assms(3,4) by (simp del: if_split cong: if_cong)
  from ranks_of_selected [OF m refl, of "sort_ties X"]
  obtain seq k where r:
    "(if length ?cl > 1
      then (case indexOf (seqSort (sort_ties X) ?cl) (claimId (claim c)) of
              None \<Rightarrow> None
            | Some seq \<Rightarrow> (case indexOf ?cl (claimId (claim c)) of
                             None \<Rightarrow> None
                           | Some bid \<Rightarrow> Some (seq, bid)))
      else Some (0, 0)) = Some (seq, k)"
    "indexOf ?cl (claimId (claim c)) = Some k"
    by blast
  have "getvalueforname X N cs0 nm bh (Some v)
          = Inr (rankedToJSON X (coinsCache cs) ?csn c (int k) (int seq))"
    unfolding getvalueforname_def Let_def using assms(1,2,5) ne sel r(1)
    by (simp del: if_split cong: if_cong)
  then show ?thesis using r(2) by blast
qed

lemma getclaimbyid_bid:
  assumes "ParseClaimtrieId v = Inr cidText" and "3 \<le> length cidText"
    and "fst (resolveClaimId (pclaimTrie_db X) cidText) = Some (inm, cl)"
    and "claimId cl \<in> (\<lambda>c. claimId (claim c)) `
           set (claimsNsupports (getClaimsForName (trieCache ics) inm))"
    and "claimId cl \<noteq> 0"
  shows "\<exists>c seq k. c \<in> set (claimsNsupports (getClaimsForName (trieCache ics) inm))
           \<and> claimId (claim c) = claimId cl
           \<and> indexOf (claimsNsupports (getClaimsForName (trieCache ics) inm)) (claimId cl) = Some k
           \<and> fst (getclaimbyid X ics v)
               = Inr (rankedToJSON X (coinsCache ics) (getClaimsForName (trieCache ics) inm)
                        c (int k) (int seq))"
proof -
  let ?csn = "getClaimsForName (trieCache ics) inm"
  let ?cl = "claimsNsupports ?csn"
  obtain log where l: "resolveClaimId (pclaimTrie_db X) cidText = (Some (inm, cl), log)"
    using assms(3) by (cases "resolveClaimId (pclaimTrie_db X) cidText") auto
  from find_claim_present [of "claimId cl" ?csn] assms(4)
  obtain c where c: "find_claim ?csn (claimId cl) = Some c" by auto
  from find_claim_Some [OF c]
  have m: "c \<in> set ?cl" "claimId (claim c) = claimId cl" by auto
  have nn: "\<not> IsNull c" using m(2) assms(5) by (simp add: IsNull_def)
  from ranks_of_selected [OF m, of "sort_ties X"]
  obtain seq k where r:
    "(if length ?cl > 1
      then (case indexOf (seqSort (sort_ties X) ?cl) (claimId cl) of
              None \<Rightarrow> None
            | Some seq \<Rightarrow> (case indexOf ?cl (claimId cl) of
                             None \<Rightarrow> None
                           | Some bid \<Rightarrow> Some (seq, bid)))
      else Some (0, 0)) = Some (seq, k)"
    "indexOf ?cl (claimId cl) = Some k"
    by blast
  have "fst (getclaimbyid X ics v)
          = Inr (rankedToJSON X (coinsCache ics) ?csn c (int k) (int seq))"
    unfolding getclaimbyid_def Let_def using assms(1,2) l c nn r(1)
    by (simp del: if_split cong: if_cong)
  then show ?thesis using m r(2) by blast
qed

text \<open>
  On two claims that tie, the claim that \<^verbatim>\<open>getclaimbyseq\<close> finds at sequence number 0
  depends on the library, and its bid is its position in the list of the registry.
\<close>

lemma tied_byseq:
  "getclaimbyseq (bareExternals []) (quietNode 0) tiedCaches ''name'' (Some 0) None
     = Inr (rankedToJSON (bareExternals []) spentCoins
              (getClaimsForName (trieCache tiedCaches) ''name'') (mkClaim 5 100 100 0) 0 0)"
  "getclaimbyseq ((bareExternals [])\<lparr>sort_ties := reverseRank\<rparr>) (quietNode 0) tiedCaches ''name''
       (Some 0) None
     = Inr (rankedToJSON ((bareExternals [])\<lparr>sort_ties := reverseRank\<rparr>) spentCoins
              (getClaimsForName (trieCache tiedCaches) ''name'') (mkClaim 4 100 100 0) 1 0)"
proof -
  have h: "historicalView (quietNode 0) None tiedCaches = Inr tiedCaches"
    by (simp add: historicalView_def)
  have cl: "claimsNsupports (getClaimsForName (trieCache tiedCaches) nm) = tiedClaims" for nm
    by (simp add: tiedCaches_def)
  have cc: "coinsCache tiedCaches = spentCoins" by (simp add: tiedCaches_def)
  have l: "length tiedClaims = 2" by (simp add: tiedClaims_def)
  have bs: "\<not> beyond_size 0 tiedClaims" by (simp add: beyond_size_def l)
  have id: "claimId (claim (mkClaim c ht va k)) = c" for c ht va k
    by (simp add: mkClaim_def)
  have i: "indexOf tiedClaims 5 = Some 0" "indexOf tiedClaims 4 = Some 1"
    by (simp_all add: indexOf_def Let_def tiedClaims_def mkClaim_def)
  have st: "sort_ties (bareExternals []) = noRank"
    "sort_ties ((bareExternals [])\<lparr>sort_ties := reverseRank\<rparr>) = reverseRank"
    by (simp_all add: bareExternals_def)
  show "getclaimbyseq (bareExternals []) (quietNode 0) tiedCaches ''name'' (Some 0) None
     = Inr (rankedToJSON (bareExternals []) spentCoins
              (getClaimsForName (trieCache tiedCaches) ''name'') (mkClaim 5 100 100 0) 0 0)"
    unfolding getclaimbyseq_def Let_def
    by (simp add: h cl cc bs l st tied_orders id i)
  show "getclaimbyseq ((bareExternals [])\<lparr>sort_ties := reverseRank\<rparr>) (quietNode 0) tiedCaches ''name''
       (Some 0) None
     = Inr (rankedToJSON ((bareExternals [])\<lparr>sort_ties := reverseRank\<rparr>) spentCoins
              (getClaimsForName (trieCache tiedCaches) ''name'') (mkClaim 4 100 100 0) 1 0)"
    unfolding getclaimbyseq_def Let_def
    by (simp add: h cl cc bs l st tied_orders id i)
qed

text \<open>
  C9.  The bid positions that the queries report are the positions of the list that the
  registry returned, whatever the sequence order and whatever the order that
  \<^verbatim>\<open>std::sort\<close> gives to tied claims: in the embedding a list is a value, and that
  \<^verbatim>\<open>seqSort\<close> sorts a copy shows in what the queries read after they have called it.
  Let \<open>claims\<close> be the list of the name on the view of the query.

  \<^item> \<^verbatim>\<open>getclaimsforname\<close> answers with as many claim objects as the list has
    claims, in the order of the list: the object at position \<open>j\<close> is the rendering of
    the claim at position \<open>j\<close>, with its identifier, with bid \<open>j\<close> and with a sequence
    number.
  \<^item> \<^verbatim>\<open>getclaimbybid\<close> answers for a bid \<open>b\<close> inside the list with the rendering
    of the claim at position \<open>b\<close>, with its identifier and with bid \<open>b\<close>.
  \<^item> \<^verbatim>\<open>getclaimbyseq\<close> answers for a sequence number \<open>q\<close> inside the list with
    sequence number \<open>q\<close>, and the bid \<open>k\<close> and the identifier it reports are such
    that \<open>k\<close> is the first position of the list whose claim has that identifier.
  \<^item> \<^verbatim>\<open>getvalueforname\<close> without identifier, on a name whose list starts with a
    claim that is not null, answers with bid 0 and the identifier of that claim; with
    an accepted identifier text for which \<^verbatim>\<open>find\<close> returns a claim that is not
    null, it answers with the identifier of that claim and with the first position of
    the list that has it as bid; with any parameter, it never fails an assertion, and an
    answer that is not the empty object reports a bid \<open>k\<close> and an identifier such
    that \<open>k\<close> is the first position of the list whose claim has that identifier.
  \<^item> \<^verbatim>\<open>getclaimbyid\<close>, for an accepted identifier text that the index resolves to a
    name and a claim whose identifier is not null and occurs in the list \<open>iclaims\<close>
    of that name, answers with that identifier and with the first position of
    \<open>iclaims\<close> that has it as bid.
\<close>

theorem bid_order_is_never_resorted:
  "(historicalView N bh cs0 = Inr cs \<and>
    claims = claimsNsupports (getClaimsForName (trieCache cs) nm) \<longrightarrow>
      (\<exists>r objs. getclaimsforname X N cs0 nm bh = Inr r
         \<and> find_value r T_CLAIMS = Some (VARR objs)
         \<and> length objs = length claims
         \<and> (\<forall>j<length claims.
               find_value (objs ! j) T_BID = Some (VNUM (int j))
               \<and> find_value (objs ! j) T_CLAIMID
                   = Some (VSTR (GetHex (claimId (claim (claims ! j)))))
               \<and> (\<exists>s<length claims.
                     objs ! j = pushKV (pushKV (claimAndSupportsToJSON X (coinsCache cs) (claims ! j))
                                          T_BID (VNUM (int j)))
                                  T_SEQUENCE (VNUM (int s)))))
      \<and> (0 \<le> b \<and> b < 2 ^ 31 \<and> b < int (length claims) \<longrightarrow>
           (\<exists>r. getclaimbybid X N cs0 nm (Some b) bh = Inr r
              \<and> find_value r T_BID = Some (VNUM b)
              \<and> find_value r T_CLAIMID = Some (VSTR (GetHex (claimId (claim (claims ! nat b)))))
              \<and> (\<exists>s<length claims.
                    r = rankedToJSON X (coinsCache cs) (getClaimsForName (trieCache cs) nm)
                          (claims ! nat b) b (int s))))
      \<and> (0 \<le> q \<and> q < 2 ^ 31 \<and> q < int (length claims) \<longrightarrow>
           (\<exists>r k. getclaimbyseq X N cs0 nm (Some q) bh = Inr r
              \<and> indexOf claims (claimId (claim (claims ! k))) = Some k
              \<and> find_value r T_BID = Some (VNUM (int k))
              \<and> find_value r T_CLAIMID = Some (VSTR (GetHex (claimId (claim (claims ! k)))))
              \<and> find_value r T_SEQUENCE = Some (VNUM q)))
      \<and> (claims \<noteq> [] \<and> \<not> IsNull (claims ! 0) \<longrightarrow>
           (\<exists>r. getvalueforname X N cs0 nm bh None = Inr r
              \<and> find_value r T_BID = Some (VNUM 0)
              \<and> find_value r T_CLAIMID = Some (VSTR (GetHex (claimId (claim (claims ! 0)))))))
      \<and> (ParseClaimtrieId v = Inr cidText \<and> cidText \<noteq> [] \<and>
         (if length cidText = claimIdHexLength
          then find_claim (getClaimsForName (trieCache cs) nm) (uint160S cidText)
          else find_claim_partial (getClaimsForName (trieCache cs) nm) cidText) = Some c \<and>
         \<not> IsNull c \<longrightarrow>
           (\<exists>r k. getvalueforname X N cs0 nm bh (Some v) = Inr r
              \<and> indexOf claims (claimId (claim c)) = Some k
              \<and> find_value r T_BID = Some (VNUM (int k))
              \<and> find_value r T_CLAIMID = Some (VSTR (GetHex (claimId (claim c))))))
      \<and> getvalueforname X N cs0 nm bh p \<noteq> Inl assertion_failed
      \<and> (getvalueforname X N cs0 nm bh p = Inr r' \<and> r' \<noteq> VOBJ [] \<longrightarrow>
           (\<exists>k. indexOf claims (claimId (claim (claims ! k))) = Some k
              \<and> find_value r' T_BID = Some (VNUM (int k))
              \<and> find_value r' T_CLAIMID = Some (VSTR (GetHex (claimId (claim (claims ! k))))))))
   \<and> (ParseClaimtrieId v = Inr cidText \<and> 3 \<le> length cidText \<and>
      fst (resolveClaimId (pclaimTrie_db X) cidText) = Some (inm, cl) \<and>
      iclaims = claimsNsupports (getClaimsForName (trieCache ics) inm) \<and>
      claimId cl \<in> (\<lambda>c. claimId (claim c)) ` set iclaims \<and> claimId cl \<noteq> 0 \<longrightarrow>
        (\<exists>r k. fst (getclaimbyid X ics v) = Inr r
           \<and> indexOf iclaims (claimId cl) = Some k
           \<and> find_value r T_BID = Some (VNUM (int k))
           \<and> find_value r T_CLAIMID = Some (VSTR (GetHex (claimId cl)))))"
proof (intro conjI impI)
  assume a: "historicalView N bh cs0 = Inr cs \<and>
    claims = claimsNsupports (getClaimsForName (trieCache cs) nm)"
  then have v: "historicalView N bh cs0 = Inr cs" by simp
  from getclaimsforname_bid [OF v, of X nm]
  obtain r objs where o: "getclaimsforname X N cs0 nm bh = Inr r"
    "find_value r T_CLAIMS = Some (VARR objs)" "length objs = length claims"
    "\<forall>j<length claims. \<exists>s<length claims.
        objs ! j = pushKV (pushKV (claimAndSupportsToJSON X (coinsCache cs) (claims ! j))
                             T_BID (VNUM (int j)))
                     T_SEQUENCE (VNUM (int s))"
    using a by auto
  have "\<forall>j<length claims.
               find_value (objs ! j) T_BID = Some (VNUM (int j))
               \<and> find_value (objs ! j) T_CLAIMID
                   = Some (VSTR (GetHex (claimId (claim (claims ! j)))))
               \<and> (\<exists>s<length claims.
                     objs ! j = pushKV (pushKV (claimAndSupportsToJSON X (coinsCache cs) (claims ! j))
                                          T_BID (VNUM (int j)))
                                  T_SEQUENCE (VNUM (int s)))"
  proof (intro allI impI)
    fix j assume "j < length claims"
    with o(4) obtain s where s: "s < length claims"
      "objs ! j = pushKV (pushKV (claimAndSupportsToJSON X (coinsCache cs) (claims ! j))
                             T_BID (VNUM (int j)))
                     T_SEQUENCE (VNUM (int s))"
      by blast
    show "find_value (objs ! j) T_BID = Some (VNUM (int j))
               \<and> find_value (objs ! j) T_CLAIMID
                   = Some (VSTR (GetHex (claimId (claim (claims ! j)))))
               \<and> (\<exists>s<length claims.
                     objs ! j = pushKV (pushKV (claimAndSupportsToJSON X (coinsCache cs) (claims ! j))
                                          T_BID (VNUM (int j)))
                                  T_SEQUENCE (VNUM (int s)))"
      using s listedToJSON_entries [of X "coinsCache cs" "claims ! j" "int j" "int s"] by auto
  qed
  then show "\<exists>r objs. getclaimsforname X N cs0 nm bh = Inr r
         \<and> find_value r T_CLAIMS = Some (VARR objs)
         \<and> length objs = length claims
         \<and> (\<forall>j<length claims.
               find_value (objs ! j) T_BID = Some (VNUM (int j))
               \<and> find_value (objs ! j) T_CLAIMID
                   = Some (VSTR (GetHex (claimId (claim (claims ! j)))))
               \<and> (\<exists>s<length claims.
                     objs ! j = pushKV (pushKV (claimAndSupportsToJSON X (coinsCache cs) (claims ! j))
                                          T_BID (VNUM (int j)))
                                  T_SEQUENCE (VNUM (int s))))"
    using o(1,2,3) by blast
next
  assume a: "historicalView N bh cs0 = Inr cs \<and>
    claims = claimsNsupports (getClaimsForName (trieCache cs) nm)"
    and b: "0 \<le> b \<and> b < 2 ^ 31 \<and> b < int (length claims)"
  from a have v: "historicalView N bh cs0 = Inr cs" by simp
  from getclaimbybid_bid [OF v, of b nm X] a b
  obtain s where s: "s < length claims"
    "getclaimbybid X N cs0 nm (Some b) bh
       = Inr (rankedToJSON X (coinsCache cs) (getClaimsForName (trieCache cs) nm)
                (claims ! nat b) b (int s))"
    by auto
  show "\<exists>r. getclaimbybid X N cs0 nm (Some b) bh = Inr r
              \<and> find_value r T_BID = Some (VNUM b)
              \<and> find_value r T_CLAIMID = Some (VSTR (GetHex (claimId (claim (claims ! nat b)))))
              \<and> (\<exists>s<length claims.
                    r = rankedToJSON X (coinsCache cs) (getClaimsForName (trieCache cs) nm)
                          (claims ! nat b) b (int s))"
    using s by (auto simp: rankedToJSON_entries)
next
  assume a: "historicalView N bh cs0 = Inr cs \<and>
    claims = claimsNsupports (getClaimsForName (trieCache cs) nm)"
    and q: "0 \<le> q \<and> q < 2 ^ 31 \<and> q < int (length claims)"
  from a have v: "historicalView N bh cs0 = Inr cs" by simp
  from getclaimbyseq_bid [OF v, of q nm X] a q
  obtain c k where c: "c \<in> set claims" "indexOf claims (claimId (claim c)) = Some k"
    "getclaimbyseq X N cs0 nm (Some q) bh
       = Inr (rankedToJSON X (coinsCache cs) (getClaimsForName (trieCache cs) nm) c (int k) q)"
    by auto
  have e: "claimId (claim (claims ! k)) = claimId (claim c)"
    using indexOf_Some [OF c(2)] by simp
  show "\<exists>r k. getclaimbyseq X N cs0 nm (Some q) bh = Inr r
              \<and> indexOf claims (claimId (claim (claims ! k))) = Some k
              \<and> find_value r T_BID = Some (VNUM (int k))
              \<and> find_value r T_CLAIMID = Some (VSTR (GetHex (claimId (claim (claims ! k)))))
              \<and> find_value r T_SEQUENCE = Some (VNUM q)"
    using c(2,3) e by (auto simp: rankedToJSON_entries)
next
  assume a: "historicalView N bh cs0 = Inr cs \<and>
    claims = claimsNsupports (getClaimsForName (trieCache cs) nm)"
    and n: "claims \<noteq> [] \<and> \<not> IsNull (claims ! 0)"
  from a have v: "historicalView N bh cs0 = Inr cs" by simp
  from getvalueforname_default [OF v, of nm X] a n
  obtain seq where s: "getvalueforname X N cs0 nm bh None
           = Inr (rankedToJSON X (coinsCache cs) (getClaimsForName (trieCache cs) nm)
                    (claims ! 0) 0 (int seq))"
    by auto
  show "\<exists>r. getvalueforname X N cs0 nm bh None = Inr r
              \<and> find_value r T_BID = Some (VNUM 0)
              \<and> find_value r T_CLAIMID = Some (VSTR (GetHex (claimId (claim (claims ! 0)))))"
    using s by (auto simp: rankedToJSON_entries)
next
  assume a: "historicalView N bh cs0 = Inr cs \<and>
    claims = claimsNsupports (getClaimsForName (trieCache cs) nm)"
    and g: "ParseClaimtrieId v = Inr cidText \<and> cidText \<noteq> [] \<and>
         (if length cidText = claimIdHexLength
          then find_claim (getClaimsForName (trieCache cs) nm) (uint160S cidText)
          else find_claim_partial (getClaimsForName (trieCache cs) nm) cidText) = Some c \<and>
         \<not> IsNull c"
  from a have hv: "historicalView N bh cs0 = Inr cs" by simp
  from g have g1: "ParseClaimtrieId v = Inr cidText" and g2: "cidText \<noteq> []"
    and g3: "(if length cidText = claimIdHexLength
              then find_claim (getClaimsForName (trieCache cs) nm) (uint160S cidText)
              else find_claim_partial (getClaimsForName (trieCache cs) nm) cidText) = Some c"
    and g4: "\<not> IsNull c"
    by blast+
  from getvalueforname_selected [OF hv g1 g2 g3 g4, of X] a
  obtain seq k where s: "indexOf claims (claimId (claim c)) = Some k"
    "getvalueforname X N cs0 nm bh (Some v)
       = Inr (rankedToJSON X (coinsCache cs) (getClaimsForName (trieCache cs) nm)
                c (int k) (int seq))"
    by auto
  show "\<exists>r k. getvalueforname X N cs0 nm bh (Some v) = Inr r
              \<and> indexOf claims (claimId (claim c)) = Some k
              \<and> find_value r T_BID = Some (VNUM (int k))
              \<and> find_value r T_CLAIMID = Some (VSTR (GetHex (claimId (claim c))))"
    using s by (auto simp: rankedToJSON_entries)
next
  assume a: "historicalView N bh cs0 = Inr cs \<and>
    claims = claimsNsupports (getClaimsForName (trieCache cs) nm)"
  from a have v: "historicalView N bh cs0 = Inr cs" by simp
  from getvalueforname_bid [OF v, of X nm p]
  show "getvalueforname X N cs0 nm bh p \<noteq> Inl assertion_failed" by auto
next
  assume a: "historicalView N bh cs0 = Inr cs \<and>
    claims = claimsNsupports (getClaimsForName (trieCache cs) nm)"
    and r: "getvalueforname X N cs0 nm bh p = Inr r' \<and> r' \<noteq> VOBJ []"
  from a have v: "historicalView N bh cs0 = Inr cs" by simp
  from getvalueforname_bid [OF v, of X nm p] a r
  obtain c seq k where c: "c \<in> set claims" "indexOf claims (claimId (claim c)) = Some k"
    "r' = rankedToJSON X (coinsCache cs) (getClaimsForName (trieCache cs) nm) c (int k) (int seq)"
    by auto
  have e: "claimId (claim (claims ! k)) = claimId (claim c)"
    using indexOf_Some [OF c(2)] by simp
  show "\<exists>k. indexOf claims (claimId (claim (claims ! k))) = Some k
              \<and> find_value r' T_BID = Some (VNUM (int k))
              \<and> find_value r' T_CLAIMID = Some (VSTR (GetHex (claimId (claim (claims ! k)))))"
    using c(2,3) e by (auto simp: rankedToJSON_entries)
next
  assume a: "ParseClaimtrieId v = Inr cidText \<and> 3 \<le> length cidText \<and>
      fst (resolveClaimId (pclaimTrie_db X) cidText) = Some (inm, cl) \<and>
      iclaims = claimsNsupports (getClaimsForName (trieCache ics) inm) \<and>
      claimId cl \<in> (\<lambda>c. claimId (claim c)) ` set iclaims \<and> claimId cl \<noteq> 0"
  from getclaimbyid_bid [of v cidText X inm cl ics] a
  obtain c seq k where c: "claimId (claim c) = claimId cl"
    "indexOf iclaims (claimId cl) = Some k"
    "fst (getclaimbyid X ics v)
       = Inr (rankedToJSON X (coinsCache ics) (getClaimsForName (trieCache ics) inm)
                c (int k) (int seq))"
    by auto
  show "\<exists>r k. fst (getclaimbyid X ics v) = Inr r
           \<and> indexOf iclaims (claimId cl) = Some k
           \<and> find_value r T_BID = Some (VNUM (int k))
           \<and> find_value r T_CLAIMID = Some (VSTR (GetHex (claimId cl)))"
    using c by (auto simp: rankedToJSON_entries)
qed

text \<open>
  On the view of a query that names the block of the tip, for the name whose two claims the
  registry lists with the claim registered at height 100 before the claim registered at height 99, the sequence order is the reverse of the
  list, and the queries report the positions of the list: the claim registered at height
  99, first in sequence order, has bid 1 for every query.  On the name with two claims
  that tie, the claim at sequence number 0 is the first of the list, with bid 0, under
  the library that keeps tied claims in place, and the second of the list, with bid 1,
  under the library that reverses them.
\<close>

theorem bid_order_is_never_resorted_witness:
  "historicalView tipNode (Some 0) indexedCaches = Inr indexedCaches
   \<and> indexedClaims = claimsNsupports (getClaimsForName (trieCache indexedCaches) ''name'')
   \<and> seqSort (sort_ties (bareExternals exampleDb)) indexedClaims
       = [indexedClaims ! 1, indexedClaims ! 0]
   \<and> (\<exists>r objs. getclaimsforname (bareExternals exampleDb) tipNode indexedCaches ''name'' (Some 0)
                  = Inr r
         \<and> find_value r T_CLAIMS = Some (VARR objs) \<and> length objs = 2
         \<and> find_value (objs ! 0) T_BID = Some (VNUM 0)
         \<and> find_value (objs ! 0) T_CLAIMID = Some (VSTR ''abcd000000000000000000000000000000000003'')
         \<and> find_value (objs ! 1) T_BID = Some (VNUM 1)
         \<and> find_value (objs ! 1) T_CLAIMID = Some (VSTR ''abcd000000000000000000000000000000000002''))
   \<and> (\<exists>r. getclaimbybid (bareExternals exampleDb) tipNode indexedCaches ''name'' (Some 1) (Some 0)
             = Inr r
         \<and> find_value r T_BID = Some (VNUM 1)
         \<and> find_value r T_CLAIMID = Some (VSTR ''abcd000000000000000000000000000000000002''))
   \<and> (\<exists>r. getclaimbyseq (bareExternals exampleDb) tipNode indexedCaches ''name'' (Some 0) (Some 0)
             = Inr r
         \<and> find_value r T_BID = Some (VNUM 1)
         \<and> find_value r T_CLAIMID = Some (VSTR ''abcd000000000000000000000000000000000002'')
         \<and> find_value r T_SEQUENCE = Some (VNUM 0))
   \<and> (\<exists>r. getvalueforname (bareExternals exampleDb) tipNode indexedCaches ''name'' (Some 0) None
             = Inr r
         \<and> find_value r T_BID = Some (VNUM 0)
         \<and> find_value r T_CLAIMID = Some (VSTR ''abcd000000000000000000000000000000000003''))
   \<and> (\<exists>r. getvalueforname (bareExternals exampleDb) tipNode indexedCaches ''name'' (Some 0)
               (Some (VSTR ''abcd000000000000000000000000000000000002''))
             = Inr r
         \<and> r \<noteq> VOBJ []
         \<and> find_value r T_BID = Some (VNUM 1)
         \<and> find_value r T_CLAIMID = Some (VSTR ''abcd000000000000000000000000000000000002''))
   \<and> ParseClaimtrieId (VSTR ''abcd000000000000000000000000000000000002'')
       = Inr ''abcd000000000000000000000000000000000002''
   \<and> fst (resolveClaimId (pclaimTrie_db (bareExternals exampleDb))
             ''abcd000000000000000000000000000000000002'')
       = Some (''second'', claim (mkClaim 0xabcd000000000000000000000000000000000002 10 10 0))
   \<and> (\<exists>r. fst (getclaimbyid (bareExternals exampleDb) indexedCaches
                   (VSTR ''abcd000000000000000000000000000000000002''))
             = Inr r
         \<and> find_value r T_BID = Some (VNUM 1)
         \<and> find_value r T_CLAIMID = Some (VSTR ''abcd000000000000000000000000000000000002''))
   \<and> (\<exists>r. getclaimbyseq (bareExternals []) (quietNode 0) tiedCaches ''name'' (Some 0) None = Inr r
         \<and> find_value r T_BID = Some (VNUM 0)
         \<and> find_value r T_CLAIMID = Some (VSTR (GetHex (claimId (claim (tiedClaims ! 0))))))
   \<and> (\<exists>r. getclaimbyseq ((bareExternals [])\<lparr>sort_ties := reverseRank\<rparr>) (quietNode 0)
               tiedCaches ''name'' (Some 0) None = Inr r
         \<and> find_value r T_BID = Some (VNUM 1)
         \<and> find_value r T_CLAIMID = Some (VSTR (GetHex (claimId (claim (tiedClaims ! 1))))))"
proof -
  let ?X = "bareExternals exampleDb"
  let ?two = "0xabcd000000000000000000000000000000000002 :: uint160"
  let ?three = "0xabcd000000000000000000000000000000000003 :: uint160"
  let ?text = "''abcd000000000000000000000000000000000002''"
  let ?csn = "getClaimsForName (trieCache indexedCaches) ''name''"
  have h: "historicalView tipNode (Some 0) indexedCaches = Inr indexedCaches"
    by (simp add: historicalView_def BlockHashIndex_def RollBackTo_def tipNode_def quietNode_def
          MAX_RPC_BLOCK_DECREMENTS_def)
  have cl: "indexedClaims = claimsNsupports (getClaimsForName (trieCache indexedCaches) nm)" for nm
    by (simp add: indexedCaches_def)
  have cc: "coinsCache indexedCaches = spentCoins" by (simp add: indexedCaches_def)
  have l: "length indexedClaims = 2" by (simp add: indexedClaims_def)
  have n: "indexedClaims ! 0 = mkClaim ?three 100 100 0" "indexedClaims ! 1 = mkClaim ?two 99 99 0"
    "indexedClaims ! Suc 0 = mkClaim ?two 99 99 0"
    by (simp_all add: indexedClaims_def)
  have id: "claimId (claim (mkClaim c ht va k)) = c" for c ht va k
    by (simp add: mkClaim_def)
  have ss: "seqSort (sort_ties ?X) indexedClaims = [indexedClaims ! 1, indexedClaims ! 0]"
    by (simp add: bareExternals_def noRank_def indexedClaims_def seqSort_def tiedLess_def
          seqLess_def Let_def mkClaim_def)
  have i2: "indexOf indexedClaims ?two = Some 1"
    by (simp add: indexOf_def Let_def indexedClaims_def mkClaim_def)
  have ne: "indexedClaims \<noteq> []" by (simp add: indexedClaims_def)
  have nn: "\<not> IsNull (mkClaim ?two 99 99 0)" "\<not> IsNull (mkClaim ?three 100 100 0)"
    "claimId (claim (mkClaim ?two 10 10 0)) \<noteq> 0"
    by (simp_all add: IsNull_def mkClaim_def)
  have pt: "ParseClaimtrieId (VSTR ?text) = Inr ?text"
    by (simp add: ParseClaimtrieId_def IsHexNumber_examples claimIdHexLength_def)
  have rs: "fst (resolveClaimId (pclaimTrie_db ?X) ?text)
              = Some (''second'', claim (mkClaim ?two 10 10 0))"
    by (simp add: resolveClaimId_def bareExternals_def claimIdHexLength_def uint160S_second
          exact_second)
  have fc: "find_claim (getClaimsForName (trieCache indexedCaches) nm) ?two
              = Some (mkClaim ?two 99 99 0)" for nm
    by (simp add: find_claim_def indexedCaches_def indexedClaims_def mkClaim_def)
  have bs: "\<not> beyond_size 0 indexedClaims" by (simp add: beyond_size_def l)
  have byseq: "getclaimbyseq ?X tipNode indexedCaches ''name'' (Some 0) (Some 0)
                 = Inr (rankedToJSON ?X spentCoins ?csn (mkClaim ?two 99 99 0) 1 0)"
    unfolding getclaimbyseq_def Let_def
    by (simp add: h cl [symmetric] cc bs l ss n id i2)
  note T = bid_order_is_never_resorted
             [where N = tipNode and bh = "Some 0" and ?cs0.0 = indexedCaches
                and cs = indexedCaches and claims = indexedClaims and nm = "''name''"
                and X = ?X and b = 1 and q = 0 and p = "Some (VSTR ?text)"
                and r' = "rankedToJSON ?X spentCoins ?csn (mkClaim ?two 99 99 0) 1 0"
                and v = "VSTR ?text" and cidText = ?text and inm = "''second''"
                and cl = "claim (mkClaim ?two 10 10 0)" and iclaims = indexedClaims
                and ics = indexedCaches and c = "mkClaim ?two 99 99 0"]
  note P = T [THEN conjunct1, rule_format, OF conjI [OF h cl]]
  from P [THEN conjunct1] obtain r objs where o:
    "getclaimsforname ?X tipNode indexedCaches ''name'' (Some 0) = Inr r"
    "find_value r T_CLAIMS = Some (VARR objs)" "length objs = length indexedClaims"
    "\<forall>j<length indexedClaims.
        find_value (objs ! j) T_BID = Some (VNUM (int j))
        \<and> find_value (objs ! j) T_CLAIMID
            = Some (VSTR (GetHex (claimId (claim (indexedClaims ! j)))))
        \<and> (\<exists>s<length indexedClaims.
              objs ! j = pushKV (pushKV (claimAndSupportsToJSON ?X (coinsCache indexedCaches)
                                           (indexedClaims ! j))
                                   T_BID (VNUM (int j)))
                           T_SEQUENCE (VNUM (int s)))"
    by blast
  from o(4) l have o0: "find_value (objs ! 0) T_BID = Some (VNUM 0)"
    "find_value (objs ! 0) T_CLAIMID = Some (VSTR ''abcd000000000000000000000000000000000003'')"
    using n id GetHex_3 by force+
  from o(4) l have o1: "find_value (objs ! 1) T_BID = Some (VNUM 1)"
    "find_value (objs ! 1) T_CLAIMID = Some (VSTR ''abcd000000000000000000000000000000000002'')"
    using n id GetHex_2 by force+
  have A: "\<exists>r objs. getclaimsforname ?X tipNode indexedCaches ''name'' (Some 0) = Inr r
         \<and> find_value r T_CLAIMS = Some (VARR objs) \<and> length objs = 2
         \<and> find_value (objs ! 0) T_BID = Some (VNUM 0)
         \<and> find_value (objs ! 0) T_CLAIMID = Some (VSTR ''abcd000000000000000000000000000000000003'')
         \<and> find_value (objs ! 1) T_BID = Some (VNUM 1)
         \<and> find_value (objs ! 1) T_CLAIMID = Some (VSTR ''abcd000000000000000000000000000000000002'')"
    using o(1,2,3) l o0 o1 by auto
  have B: "\<exists>r. getclaimbybid ?X tipNode indexedCaches ''name'' (Some 1) (Some 0) = Inr r
         \<and> find_value r T_BID = Some (VNUM 1)
         \<and> find_value r T_CLAIMID = Some (VSTR ''abcd000000000000000000000000000000000002'')"
    using P [THEN conjunct2, THEN conjunct1] l n id GetHex_2 by auto
  have C: "\<exists>r. getclaimbyseq ?X tipNode indexedCaches ''name'' (Some 0) (Some 0) = Inr r
         \<and> find_value r T_BID = Some (VNUM 1)
         \<and> find_value r T_CLAIMID = Some (VSTR ''abcd000000000000000000000000000000000002'')
         \<and> find_value r T_SEQUENCE = Some (VNUM 0)"
    using byseq by (simp add: rankedToJSON_entries id GetHex_2)
  have D: "\<exists>r. getvalueforname ?X tipNode indexedCaches ''name'' (Some 0) None = Inr r
         \<and> find_value r T_BID = Some (VNUM 0)
         \<and> find_value r T_CLAIMID = Some (VSTR ''abcd000000000000000000000000000000000003'')"
    using P [THEN conjunct2, THEN conjunct2, THEN conjunct2, THEN conjunct1] ne nn n id GetHex_3
    by auto
  have sel: "(if length ?text = claimIdHexLength
              then find_claim (getClaimsForName (trieCache indexedCaches) ''name'') (uint160S ?text)
              else find_claim_partial (getClaimsForName (trieCache indexedCaches) ''name'') ?text)
               = Some (mkClaim ?two 99 99 0)"
    by (simp add: claimIdHexLength_def uint160S_second fc)
  have tne: "?text \<noteq> []" by simp
  from P [THEN conjunct2, THEN conjunct2, THEN conjunct2, THEN conjunct2, THEN conjunct1,
          rule_format, OF conjI [OF pt conjI [OF tne conjI [OF sel nn(1)]]]]
  obtain rv kv where rv:
    "getvalueforname ?X tipNode indexedCaches ''name'' (Some 0) (Some (VSTR ?text)) = Inr rv"
    "indexOf indexedClaims (claimId (claim (mkClaim ?two 99 99 0))) = Some kv"
    "find_value rv T_BID = Some (VNUM (int kv))"
    "find_value rv T_CLAIMID = Some (VSTR (GetHex (claimId (claim (mkClaim ?two 99 99 0)))))"
    by blast
  from rv(2) i2 have kv: "kv = 1" by (simp add: id)
  have "find_value rv T_BID \<noteq> find_value (VOBJ []) T_BID" using rv(3) by simp
  then have "rv \<noteq> VOBJ []" by metis
  with rv kv have F: "\<exists>r. getvalueforname ?X tipNode indexedCaches ''name'' (Some 0) (Some (VSTR ?text))
             = Inr r
         \<and> r \<noteq> VOBJ []
         \<and> find_value r T_BID = Some (VNUM 1)
         \<and> find_value r T_CLAIMID = Some (VSTR ''abcd000000000000000000000000000000000002'')"
    by (simp add: id GetHex_2)
  have m: "claimId (claim (mkClaim ?two 10 10 0)) \<in> (\<lambda>c. claimId (claim c)) ` set indexedClaims"
    by (simp add: indexedClaims_def id)
  from T [THEN conjunct2, rule_format,
          OF conjI [OF pt conjI [OF _ conjI [OF rs conjI [OF cl conjI [OF m nn(3)]]]]]]
  obtain r k where r: "fst (getclaimbyid ?X indexedCaches (VSTR ?text)) = Inr r"
    "indexOf indexedClaims (claimId (claim (mkClaim ?two 10 10 0))) = Some k"
    "find_value r T_BID = Some (VNUM (int k))"
    "find_value r T_CLAIMID = Some (VSTR (GetHex (claimId (claim (mkClaim ?two 10 10 0)))))"
    by auto
  from r(2) i2 have "k = 1" by (simp add: id)
  with r have H: "\<exists>r. fst (getclaimbyid ?X indexedCaches (VSTR ?text)) = Inr r
         \<and> find_value r T_BID = Some (VNUM 1)
         \<and> find_value r T_CLAIMID = Some (VSTR ''abcd000000000000000000000000000000000002'')"
    by (simp add: id GetHex_2)
  have tn: "claimId (claim (tiedClaims ! 0)) = 5" "claimId (claim (tiedClaims ! 1)) = 4"
    "claimId (claim (tiedClaims ! Suc 0)) = 4"
    by (simp_all add: tiedClaims_def id)
  have G1: "\<exists>r. getclaimbyseq (bareExternals []) (quietNode 0) tiedCaches ''name'' (Some 0) None = Inr r
         \<and> find_value r T_BID = Some (VNUM 0)
         \<and> find_value r T_CLAIMID = Some (VSTR (GetHex (claimId (claim (tiedClaims ! 0)))))"
    by (simp add: tied_byseq rankedToJSON_entries tn id)
  have G2: "\<exists>r. getclaimbyseq ((bareExternals [])\<lparr>sort_ties := reverseRank\<rparr>) (quietNode 0)
               tiedCaches ''name'' (Some 0) None = Inr r
         \<and> find_value r T_BID = Some (VNUM 1)
         \<and> find_value r T_CLAIMID = Some (VSTR (GetHex (claimId (claim (tiedClaims ! 1)))))"
    by (simp add: tied_byseq rankedToJSON_entries tn id)
  from h cl [of "''name''"] ss A B C D F pt rs H G1 G2 show ?thesis by blast
qed

end
